theory Spec2Isabelle
  imports Main
begin

section \<open>Values shared by the log contract and the recorder\<close>

text \<open>
  A severity level is the integer that \<^verbatim>\<open>Log._factory\<close> closes over: debug is 0, info 1,
  user 2, warning 3 and error 4. A file mode is the string handed to \<^verbatim>\<open>open\<close>
  (\<^verbatim>\<open>'w'\<close> or \<^verbatim>\<open>'wb'\<close>). An identifier is Python's \<^verbatim>\<open>None\<close> or a bytes value; file
  contents are strings.
\<close>

type_synonym level = nat
type_synonym mode = string
type_synonym ident = "string option"

text \<open>Python truthiness of an identifier: \<^verbatim>\<open>None\<close> and the empty bytes value are falsy.\<close>

fun truthy :: "ident \<Rightarrow> bool" where
  "truthy None = False"
| "truthy (Some b) = (b \<noteq> [])"

text \<open>
  The exceptions of the model: the three that the replay loop raises on a sequence that
  is not well nested, the end-of-sequence signal of the iterator protocol, and an
  exception raised by the caller's own block.
\<close>

datatype exc = IndexError | TypeError | AttributeError | StopIteration | Raised string

section \<open>The log contract (abc.py, class Log)\<close>

text \<open>
  A log is its four abstract methods over a state \<open>'s\<close>. \<^verbatim>\<open>open\<close> returns a context
  manager: \<open>open_enter\<close> is its \<^verbatim>\<open>__enter__\<close> and yields the file resource \<open>'h\<close>,
  \<open>file_write\<close> is the resource's \<^verbatim>\<open>write\<close>, and \<open>open_exit\<close> is its \<^verbatim>\<open>__exit__\<close>, told
  the exception in flight, if any.
\<close>

record ('s, 'h) log =
  pushcontext :: "string \<Rightarrow> 's \<Rightarrow> 's"
  popcontext :: "'s \<Rightarrow> 's"
  write_msg :: "string \<Rightarrow> level \<Rightarrow> 's \<Rightarrow> 's"
  open_enter :: "string \<Rightarrow> mode \<Rightarrow> level \<Rightarrow> ident \<Rightarrow> 's \<Rightarrow> 'h \<times> 's"
  file_write :: "'h \<Rightarrow> string \<Rightarrow> 'h"
  open_exit :: "'h \<Rightarrow> exc option \<Rightarrow> 's \<Rightarrow> 's"

subsection \<open>Log.context\<close>

text \<open>
  \<^verbatim>\<open>context\<close> is a generator-based context manager: entering runs it up to the
  \<^verbatim>\<open>yield\<close>, leaving runs the \<^verbatim>\<open>finally\<close> clause, with or without an exception in
  flight. \<open>with_context\<close> is the \<^verbatim>\<open>with log.context(text): block\<close> statement; the block
  returns \<open>Inl e\<close> when it raises \<open>e\<close>.
\<close>

definition context_enter :: "('s, 'h) log \<Rightarrow> string \<Rightarrow> 's \<Rightarrow> 's" where
  "context_enter L text s = pushcontext L text s"

definition context_exit :: "('s, 'h) log \<Rightarrow> 's \<Rightarrow> 's" where
  "context_exit L s = popcontext L s"

definition with_context ::
  "('s, 'h) log \<Rightarrow> string \<Rightarrow> ('s \<Rightarrow> (exc + 'a) \<times> 's) \<Rightarrow> 's \<Rightarrow> (exc + 'a) \<times> 's" where
  "with_context L text block s =
     (let s1 = context_enter L text s;
          (r, s2) = block s1
      in (r, context_exit L s2))"

subsection \<open>The leveled methods (Log._factory)\<close>

text \<open>\<^verbatim>\<open>sep.join(args)\<close>, the arguments already converted by \<^verbatim>\<open>str\<close>.\<close>

fun join :: "string \<Rightarrow> string list \<Rightarrow> string" where
  "join sep [] = []"
| "join sep [a] = a"
| "join sep (a # b # bs) = a @ sep @ join sep (b # bs)"

text \<open>The keyword argument \<^verbatim>\<open>sep\<close> is optional and defaults to one space.\<close>

definition print_level :: "level \<Rightarrow> ('s, 'h) log \<Rightarrow> string list \<Rightarrow> string option \<Rightarrow> 's \<Rightarrow> 's" where
  "print_level lvl L args sep s =
     write_msg L (join (case sep of None \<Rightarrow> '' '' | Some x \<Rightarrow> x) args) lvl s"

definition debug :: "('s, 'h) log \<Rightarrow> string list \<Rightarrow> string option \<Rightarrow> 's \<Rightarrow> 's" where
  "debug = print_level 0"

definition info :: "('s, 'h) log \<Rightarrow> string list \<Rightarrow> string option \<Rightarrow> 's \<Rightarrow> 's" where
  "info = print_level 1"

definition user :: "('s, 'h) log \<Rightarrow> string list \<Rightarrow> string option \<Rightarrow> 's \<Rightarrow> 's" where
  "user = print_level 2"

definition warning :: "('s, 'h) log \<Rightarrow> string list \<Rightarrow> string option \<Rightarrow> 's \<Rightarrow> 's" where
  "warning = print_level 3"

definition error :: "('s, 'h) log \<Rightarrow> string list \<Rightarrow> string option \<Rightarrow> 's \<Rightarrow> 's" where
  "error = print_level 4"

section \<open>The recorder (rec.py, class RecordLog)\<close>

text \<open>The tuples of \<^verbatim>\<open>_messages\<close>, tagged by their first component.\<close>

datatype cmd =
    Context_enter string
  | Context_exit
  | Open_enter string mode level ident
  | Open_exit "string option"
  | Write_cmd string level

record recordlog =
  messages :: "cmd list"
  seen :: "ident \<rightharpoonup> string"

definition RecordLog_init :: recordlog where
  "RecordLog_init = \<lparr>messages = [], seen = Map.empty\<rparr>"

definition rec_pushcontext :: "string \<Rightarrow> recordlog \<Rightarrow> recordlog" where
  "rec_pushcontext title rl = rl\<lparr>messages := messages rl @ [Context_enter title]\<rparr>"

fun is_context_enter :: "cmd \<Rightarrow> bool" where
  "is_context_enter (Context_enter t) = True"
| "is_context_enter c = False"

definition rec_popcontext :: "recordlog \<Rightarrow> recordlog" where
  "rec_popcontext rl =
     (if messages rl \<noteq> [] \<and> is_context_enter (last (messages rl))
      then rl\<lparr>messages := butlast (messages rl)\<rparr>
      else rl\<lparr>messages := messages rl @ [Context_exit]\<rparr>)"

definition rec_write :: "string \<Rightarrow> level \<Rightarrow> recordlog \<Rightarrow> recordlog" where
  "rec_write text lvl rl = rl\<lparr>messages := messages rl @ [Write_cmd text lvl]\<rparr>"

text \<open>
  Modelled from the spec: the file resources of the module \<^verbatim>\<open>_io\<close>, which is not among
  the sources. \<^verbatim>\<open>_io.devnull\<close> is a sink that discards what is written to it;
  \<^verbatim>\<open>_io.tempfile\<close> is a temporary buffer whose full contents are read back on exit.
\<close>

datatype iofile = Devnull | Tempfile string

fun fwrite :: "iofile \<Rightarrow> string \<Rightarrow> iofile" where
  "fwrite Devnull d = Devnull"
| "fwrite (Tempfile b) d = Tempfile (b @ d)"

fun fread :: "iofile \<Rightarrow> string" where
  "fread Devnull = []"
| "fread (Tempfile b) = b"

text \<open>
  The frame of one call of the generator \<^verbatim>\<open>RecordLog.open\<close>, suspended at its \<^verbatim>\<open>yield\<close>:
  the argument \<^verbatim>\<open>id\<close>, the local \<^verbatim>\<open>data\<close> and the file \<^verbatim>\<open>f\<close> handed to the caller.
\<close>

record frame =
  f_id :: ident
  f_data :: "string option"
  f_file :: iofile

definition rec_open_enter ::
  "string \<Rightarrow> mode \<Rightarrow> level \<Rightarrow> ident \<Rightarrow> recordlog \<Rightarrow> frame \<times> recordlog" where
  "rec_open_enter filename md lvl i rl =
     (let rl1 = rl\<lparr>messages := messages rl @ [Open_enter filename md lvl i]\<rparr>;
          data = seen rl1 i
      in (case data of
            Some d \<Rightarrow> (\<lparr>f_id = i, f_data = data, f_file = Devnull\<rparr>, rl1)
          | None \<Rightarrow> (\<lparr>f_id = i, f_data = data, f_file = Tempfile []\<rparr>, rl1)))"

definition rec_file_write :: "frame \<Rightarrow> string \<Rightarrow> frame" where
  "rec_file_write fr d = fr\<lparr>f_file := fwrite (f_file fr) d\<rparr>"

text \<open>
  Leaving the scope. With cached data the body of the \<^verbatim>\<open>with _io.devnull\<close> statement is
  only the \<^verbatim>\<open>yield\<close>. Otherwise the file is read back and, for a truthy id, stored in
  \<^verbatim>\<open>_seen\<close>, but only when the caller's block did not raise: an exception thrown in at
  the \<^verbatim>\<open>yield\<close> skips both statements. The \<^verbatim>\<open>finally\<close> clause appends the exit record in
  every case.
\<close>

definition rec_open_exit :: "frame \<Rightarrow> exc option \<Rightarrow> recordlog \<Rightarrow> recordlog" where
  "rec_open_exit fr e rl =
     (case f_data fr of
        Some d \<Rightarrow> rl\<lparr>messages := messages rl @ [Open_exit (Some d)]\<rparr>
      | None \<Rightarrow>
          (case e of
             Some x \<Rightarrow> rl\<lparr>messages := messages rl @ [Open_exit None]\<rparr>
           | None \<Rightarrow>
               (let data = fread (f_file fr);
                    rl1 = (if truthy (f_id fr) then rl\<lparr>seen := (seen rl)(f_id fr \<mapsto> data)\<rparr> else rl)
                in rl1\<lparr>messages := messages rl1 @ [Open_exit (Some data)]\<rparr>)))"

definition RecordLog :: "(recordlog, frame) log" where
  "RecordLog = \<lparr>pushcontext = rec_pushcontext, popcontext = rec_popcontext,
     write_msg = rec_write, open_enter = rec_open_enter, file_write = rec_file_write,
     open_exit = rec_open_exit\<rparr>"

subsection \<open>RecordLog.replay\<close>

text \<open>
  The target log is the argument of \<^verbatim>\<open>replay\<close>; the default, the module's current log, is
  not modelled. \<^verbatim>\<open>log.context(title).__enter__()\<close> is \<open>context_enter\<close> and the manager's
  \<^verbatim>\<open>__exit__(None, None, None)\<close> is \<open>context_exit\<close>.

  The list \<^verbatim>\<open>contexts\<close> of the replay loop is kept with its most recent entry first: an
  entered \<^verbatim>\<open>log.context\<close> manager, or the pair of an entered \<^verbatim>\<open>log.open\<close> manager and its
  file. \<^verbatim>\<open>contexts.pop()\<close> on the empty list raises IndexError; calling \<^verbatim>\<open>__exit__\<close> on a
  pair raises AttributeError; unpacking a context manager into a pair raises TypeError.
\<close>

datatype 'h entry = Ctx | Pair 'h

fun replay_step ::
  "('s, 'h) log \<Rightarrow> cmd \<Rightarrow> 'h entry list \<times> 's \<Rightarrow> exc + 'h entry list \<times> 's" where
  "replay_step L (Context_enter title) (contexts, s) =
     Inr (Ctx # contexts, context_enter L title s)"
| "replay_step L Context_exit (contexts, s) =
     (case contexts of
        [] \<Rightarrow> Inl IndexError
      | Ctx # rest \<Rightarrow> Inr (rest, context_exit L s)
      | Pair h # rest \<Rightarrow> Inl AttributeError)"
| "replay_step L (Open_enter filename md lvl i) (contexts, s) =
     (let (h, s1) = open_enter L filename md lvl i s in Inr (Pair h # contexts, s1))"
| "replay_step L (Open_exit data) (contexts, s) =
     (case contexts of
        [] \<Rightarrow> Inl IndexError
      | Ctx # rest \<Rightarrow> Inl TypeError
      | Pair h # rest \<Rightarrow>
          (case data of
             None \<Rightarrow> Inr (rest, open_exit L h None s)
           | Some d \<Rightarrow> Inr (rest, open_exit L (file_write L h d) None s)))"
| "replay_step L (Write_cmd text lvl) (contexts, s) = Inr (contexts, write_msg L text lvl s)"

fun replay_from ::
  "('s, 'h) log \<Rightarrow> cmd list \<Rightarrow> 'h entry list \<times> 's \<Rightarrow> exc + 'h entry list \<times> 's" where
  "replay_from L [] st = Inr st"
| "replay_from L (c # cs) st =
     (case replay_step L c st of Inl e \<Rightarrow> Inl e | Inr st1 \<Rightarrow> replay_from L cs st1)"

definition replay :: "recordlog \<Rightarrow> ('s, 'h) log \<Rightarrow> 's \<Rightarrow> exc + 's" where
  "replay rl L s =
     (case replay_from L (messages rl) ([], s) of
        Inl e \<Rightarrow> Inl e
      | Inr (contexts, s1) \<Rightarrow> Inr s1)"

section \<open>Scoped generators (abc.py, classes Closing and ClosingGenerator)\<close>

text \<open>
  A generator object, as far as \<^verbatim>\<open>ClosingGenerator\<close> uses it: \<^verbatim>\<open>next(gen)\<close> returns a
  value or raises, \<^verbatim>\<open>gen.close()\<close> finishes it; both may change the state \<open>'s\<close> the
  generator's body acts on.
\<close>

record ('g, 'a, 's) generator =
  g_next :: "'g \<Rightarrow> 's \<Rightarrow> (exc + 'a) \<times> 'g \<times> 's"
  g_close :: "'g \<Rightarrow> 's \<Rightarrow> 'g \<times> 's"

text \<open>
  The wrapper's only field is \<^verbatim>\<open>_gen\<close>: the generator, or \<^verbatim>\<open>None\<close> once it is
  exhausted or closed. \<^verbatim>\<open>close\<close> returns \<^verbatim>\<open>True\<close> or falls off its end, returning the
  falsy \<^verbatim>\<open>None\<close>, which is \<open>False\<close> here.
\<close>

definition cg_next ::
  "('g, 'a, 's) generator \<Rightarrow> 'g option \<Rightarrow> 's \<Rightarrow> (exc + 'a) \<times> 'g option \<times> 's" where
  "cg_next G gen s =
     (case gen of
        None \<Rightarrow> (Inl StopIteration, None, s)
      | Some g \<Rightarrow>
          (case g_next G g s of
             (Inl StopIteration, g1, s1) \<Rightarrow> (Inl StopIteration, None, s1)
           | (r, g1, s1) \<Rightarrow> (r, Some g1, s1)))"

definition cg_close :: "('g, 'a, 's) generator \<Rightarrow> 'g option \<Rightarrow> 's \<Rightarrow> bool \<times> 'g option \<times> 's" where
  "cg_close G gen s =
     (case gen of
        Some g \<Rightarrow> (let (g1, s1) = g_close G g s in (True, None, s1))
      | None \<Rightarrow> (False, None, s))"

text \<open>\<^verbatim>\<open>Closing.__exit__\<close> calls \<^verbatim>\<open>close\<close> and drops its result.\<close>

definition cg_exit :: "('g, 'a, 's) generator \<Rightarrow> 'g option \<Rightarrow> 's \<Rightarrow> 'g option \<times> 's" where
  "cg_exit G gen s = snd (cg_close G gen s)"

text \<open>
  \<^verbatim>\<open>Closing.__del__\<close> calls \<^verbatim>\<open>close\<close> and warns when it returns a true value; the first
  component says whether the ResourceWarning is issued.
\<close>

definition cg_del :: "('g, 'a, 's) generator \<Rightarrow> 'g option \<Rightarrow> 's \<Rightarrow> bool \<times> 'g option \<times> 's" where
  "cg_del G gen s = (let (was_open, gen1, s1) = cg_close G gen s in (was_open, gen1, s1))"

subsection \<open>Log.iter\<close>

text \<open>
  An iterable is a sequence with a \<^verbatim>\<open>len\<close>, or one without (a generator), for which
  \<^verbatim>\<open>len(iterable)\<close> raises and \<^verbatim>\<open>length\<close> stays \<^verbatim>\<open>None\<close>.
\<close>

datatype 'a iterable = Sized "'a list" | Unsized "'a list"

fun items :: "'a iterable \<Rightarrow> 'a list" where
  "items (Sized xs) = xs"
| "items (Unsized xs) = xs"

fun len :: "'a iterable \<Rightarrow> nat option" where
  "len (Sized xs) = Some (length xs)"
| "len (Unsized xs) = None"

text \<open>Decimal digits of a natural number, as \<^verbatim>\<open>str.format\<close> prints an integer.\<close>

fun str_nat :: "nat \<Rightarrow> string" where
  "str_nat n = (if n < 10 then [''0123456789'' ! n] else str_nat (n div 10) @ [''0123456789'' ! (n mod 10)])"

declare str_nat.simps [simp del]

text \<open>
  \<^verbatim>\<open>'{:.0f}'.format(100 * (i+.5) / length)\<close>: the quotient rounded to the nearest integer,
  a tie going to the even one. The quotient is computed exactly here; the double
  precision quotient of the source rounds to the same integer for every index below
  \<open>2 ^ 44\<close> and length below \<open>2 ^ 53\<close>.
\<close>

definition percent :: "nat \<Rightarrow> nat \<Rightarrow> nat" where
  "percent i n =
     (let a = 100 * i + 50; q = a div n; r = a mod n
      in if 2 * r < n then q else if n < 2 * r then q + 1 else if even q then q else q + 1)"

definition iter_text :: "string \<Rightarrow> nat option \<Rightarrow> nat \<Rightarrow> string" where
  "iter_text title lgth i =
     (let text = title @ '' '' @ str_nat i
      in (case lgth of
            None \<Rightarrow> text
          | Some n \<Rightarrow> if n \<noteq> 0 then text @ '' ('' @ str_nat (percent i n) @ ''%)'' else text))"

text \<open>
  The generator of \<^verbatim>\<open>iter\<close>: created with its arguments bound, suspended at the
  \<^verbatim>\<open>yield\<close> with its locals (title, length, the rest of the iterator, the index), or
  finished.
\<close>

datatype 'a gen =
    Created string "'a iterable" "nat option"
  | Suspended string "nat option" "'a list" nat
  | Finished

text \<open>
  One turn of the \<^verbatim>\<open>while True\<close> loop, from its top to the \<^verbatim>\<open>yield\<close> or the \<^verbatim>\<open>return\<close>.
  When the iterator is exhausted the \<^verbatim>\<open>return\<close> runs the \<^verbatim>\<open>finally\<close> clause and the
  generator ends, which the caller of \<^verbatim>\<open>next\<close> sees as StopIteration.
\<close>

definition gen_loop ::
  "('s, 'h) log \<Rightarrow> string \<Rightarrow> nat option \<Rightarrow> 'a list \<Rightarrow> nat \<Rightarrow> 's \<Rightarrow> (exc + 'a) \<times> 'a gen \<times> 's" where
  "gen_loop L title lgth iterator i s =
     (let s1 = pushcontext L (iter_text title lgth i) s
      in (case iterator of
            [] \<Rightarrow> (Inl StopIteration, Finished, popcontext L s1)
          | val # rest \<Rightarrow> (Inr val, Suspended title lgth rest i, s1)))"

text \<open>
  \<^verbatim>\<open>next\<close> on the generator. Resuming after the \<^verbatim>\<open>yield\<close> leaves the \<^verbatim>\<open>try\<close> statement
  through its \<^verbatim>\<open>finally\<close> clause, increments the index and starts the next turn.
\<close>

fun gen_next :: "('s, 'h) log \<Rightarrow> 'a gen \<Rightarrow> 's \<Rightarrow> (exc + 'a) \<times> 'a gen \<times> 's" where
  "gen_next L (Created title iterable lgth) s =
     gen_loop L title (case lgth of None \<Rightarrow> len iterable | Some n \<Rightarrow> Some n) (items iterable) 0 s"
| "gen_next L (Suspended title lgth iterator i) s =
     gen_loop L title lgth iterator (i + 1) (popcontext L s)"
| "gen_next L Finished s = (Inl StopIteration, Finished, s)"

text \<open>
  \<^verbatim>\<open>close\<close> on the generator: GeneratorExit is raised at the \<^verbatim>\<open>yield\<close> where it is
  suspended, and the \<^verbatim>\<open>finally\<close> clause runs; a generator that has not started or has
  finished runs nothing.
\<close>

fun gen_close :: "('s, 'h) log \<Rightarrow> 'a gen \<Rightarrow> 's \<Rightarrow> 'a gen \<times> 's" where
  "gen_close L (Created title iterable lgth) s = (Finished, s)"
| "gen_close L (Suspended title lgth iterator i) s = (Finished, popcontext L s)"
| "gen_close L Finished s = (Finished, s)"

definition iter_generator :: "('s, 'h) log \<Rightarrow> ('a gen, 'a, 's) generator" where
  "iter_generator L = \<lparr>g_next = gen_next L, g_close = gen_close L\<rparr>"

text \<open>\<^verbatim>\<open>ClosingGenerator.compose\<close>: the method returns the generator wrapped.\<close>

definition iter :: "string \<Rightarrow> 'a iterable \<Rightarrow> nat option \<Rightarrow> 'a gen option" where
  "iter title iterable lgth = Some (Created title iterable lgth)"

text \<open>
  A consumer that asks for up to \<open>n\<close> values and stops asking at the end of the sequence:
  the values it received, whether it saw the end, the wrapper and the log afterwards.
\<close>

fun pull ::
  "('g, 'a, 's) generator \<Rightarrow> nat \<Rightarrow> 'g option \<Rightarrow> 's \<Rightarrow> 'a list \<times> bool \<times> 'g option \<times> 's" where
  "pull G 0 gen s = ([], False, gen, s)"
| "pull G (Suc n) gen s =
     (case cg_next G gen s of
        (Inl e, gen1, s1) \<Rightarrow> ([], True, gen1, s1)
      | (Inr v, gen1, s1) \<Rightarrow>
          (let (vs, ended, gen2, s2) = pull G n gen1 s1 in (v # vs, ended, gen2, s2)))"

section \<open>Sessions and a capturing backend\<close>

text \<open>
  A session is the sequence of calls a caller makes on a log. An \<open>Open\<close> call is a
  \<^verbatim>\<open>with log.open(filename, mode, level, id) as f\<close> statement: the chunks written to \<open>f\<close>,
  the calls made on the log inside the block, and whether the block ends by raising.
\<close>

datatype call =
    Pushcontext string
  | Popcontext
  | Write string level
  | Open string mode level ident "string list" "call list" bool

fun drive :: "('s, 'h) log \<Rightarrow> call list \<Rightarrow> 's \<Rightarrow> 's" where
  "drive L [] s = s"
| "drive L (Pushcontext title # cs) s = drive L cs (pushcontext L title s)"
| "drive L (Popcontext # cs) s = drive L cs (popcontext L s)"
| "drive L (Write text lvl # cs) s = drive L cs (write_msg L text lvl s)"
| "drive L (Open filename md lvl i chunks body raises # cs) s =
     drive L cs
       (open_exit L (foldl (file_write L) (fst (open_enter L filename md lvl i s)) chunks)
          (if raises then Some (Raised ''block'') else None)
          (drive L body (snd (open_enter L filename md lvl i s))))"

text \<open>
  Modelled from the spec: the fresh in-memory backend of the round-trip property, which
  is not among the sources. It captures the operations it receives in order; a file
  resource collects what is written to it and is reported with its content when closed.
\<close>

datatype bevent =
    BEnter string
  | BExit
  | BWrite string level
  | BOpen string mode level ident
  | BClose string

definition CaptureLog :: "(bevent list, string) log" where
  "CaptureLog = \<lparr>pushcontext = (\<lambda>title t. t @ [BEnter title]),
     popcontext = (\<lambda>t. t @ [BExit]),
     write_msg = (\<lambda>text lvl t. t @ [BWrite text lvl]),
     open_enter = (\<lambda>filename md lvl i t. ([], t @ [BOpen filename md lvl i])),
     file_write = (\<lambda>h d. h @ d),
     open_exit = (\<lambda>h e t. t @ [BClose h])\<rparr>"

section \<open>Notions used to state the properties\<close>

text \<open>
  A session is well nested when no \<open>Popcontext\<close> lacks an earlier \<open>Pushcontext\<close> of the
  same block, every block of an \<open>Open\<close> call closes the contexts it pushed, and so does
  the session as a whole. \<open>depth cs d\<close> is the number of open contexts after \<open>cs\<close>, started
  with \<open>d\<close> open contexts, or \<open>None\<close> when the nesting is broken.
\<close>

fun depth :: "call list \<Rightarrow> nat \<Rightarrow> nat option" where
  "depth [] d = Some d"
| "depth (Pushcontext title # cs) d = depth cs (Suc d)"
| "depth (Popcontext # cs) d = (case d of 0 \<Rightarrow> None | Suc k \<Rightarrow> depth cs k)"
| "depth (Write text lvl # cs) d = depth cs d"
| "depth (Open filename md lvl i chunks body raises # cs) d =
     (if depth body 0 = Some 0 then depth cs d else None)"

definition well_nested :: "call list \<Rightarrow> bool" where
  "well_nested cs = (depth cs 0 = Some 0)"

text \<open>No block of an \<open>Open\<close> call ends by raising.\<close>

fun no_raise :: "call list \<Rightarrow> bool" where
  "no_raise [] = True"
| "no_raise (Open filename md lvl i chunks body raises # cs) =
     (\<not> raises \<and> no_raise body \<and> no_raise cs)"
| "no_raise (c # cs) = no_raise cs"

text \<open>
  The session as the recorder's cache sees it: an \<open>Open\<close> call whose id is in the
  seen-cache of the recorder at the time of the call has, in place of the chunks the
  caller wrote, the cached bytes. The recorder state is threaded through the session by
  the recorder itself.
\<close>

fun cached_view :: "call list \<Rightarrow> recordlog \<Rightarrow> call list" where
  "cached_view [] rl = []"
| "cached_view (Open filename md lvl i chunks body raises # cs) rl =
     Open filename md lvl i (case seen rl i of Some d \<Rightarrow> [d] | None \<Rightarrow> chunks)
         (cached_view body (snd (open_enter RecordLog filename md lvl i rl))) raises
       # cached_view cs (drive RecordLog [Open filename md lvl i chunks body raises] rl)"
| "cached_view (c # cs) rl = c # cached_view cs (drive RecordLog [c] rl)"

text \<open>No \<open>Open\<close> call of the session carries a truthy id, so none is ever cached.\<close>

fun falsy_ids :: "call list \<Rightarrow> bool" where
  "falsy_ids [] = True"
| "falsy_ids (Open filename md lvl i chunks body raises # cs) =
     (\<not> truthy i \<and> falsy_ids body \<and> falsy_ids cs)"
| "falsy_ids (c # cs) = falsy_ids cs"

text \<open>
  Dropping empty contexts from a captured sequence: an exit that directly follows the
  entry it closes is removed together with that entry, so a context in which nothing
  happened leaves no trace.
\<close>

fun is_BEnter :: "bevent \<Rightarrow> bool" where
  "is_BEnter (BEnter t) = True"
| "is_BEnter e = False"

definition drop_step :: "bevent list \<Rightarrow> bevent \<Rightarrow> bevent list" where
  "drop_step t e =
     (if e = BExit \<and> t \<noteq> [] \<and> is_BEnter (last t) then butlast t else t @ [e])"

definition drop_empty :: "bevent list \<Rightarrow> bevent list" where
  "drop_empty t = foldl drop_step [] t"

text \<open>
  A consumer of a scoped generator: \<^verbatim>\<open>with gen as it\<close>, asking for up to \<open>k\<close> values in
  the block; leaving the block closes the generator.
\<close>

definition consume ::
  "('g, 'a, 's) generator \<Rightarrow> nat \<Rightarrow> 'g option \<Rightarrow> 's \<Rightarrow> 'a list \<times> bool \<times> 'g option \<times> 's" where
  "consume G k gen s =
     (let (vs, ended, gen1, s1) = pull G k gen s;
          (gen2, s2) = cg_exit G gen1 s1
      in (vs, ended, gen2, s2))"

text \<open>The contexts of the indices below \<open>k\<close>, each entered and left before the next.\<close>

definition context_pairs :: "string \<Rightarrow> nat option \<Rightarrow> nat \<Rightarrow> bevent list" where
  "context_pairs title lg k = concat (map (\<lambda>j. [BEnter (iter_text title lg j), BExit]) [0..<k])"

text \<open>
  What the recorder goes through between two calls of open: complete calls, entries into
  blocks that are still open afterwards, and exits from blocks entered earlier. An exit
  keeps the cache entry of an id when its frame has another id, or found its id cached
  on entry, or is left by an exception.
\<close>

datatype step = Calls "call list" | Enters string mode level ident | Leaves frame "exc option"

fun advance :: "step list \<Rightarrow> recordlog \<Rightarrow> recordlog" where
  "advance [] rl = rl"
| "advance (Calls cs # steps) rl = advance steps (drive RecordLog cs rl)"
| "advance (Enters filename md lvl j # steps) rl =
     advance steps (snd (open_enter RecordLog filename md lvl j rl))"
| "advance (Leaves fr e # steps) rl = advance steps (open_exit RecordLog fr e rl)"

fun keeps :: "ident \<Rightarrow> step \<Rightarrow> bool" where
  "keeps i (Leaves fr e) = (f_id fr \<noteq> i \<or> f_data fr \<noteq> None \<or> e \<noteq> None)"
| "keeps i st = True"

text \<open>
  What a caller does with a scoped generator, one step after the other: ask for the next
  value, or close it. \<open>use\<close> runs the steps on the wrapper and also reports whether one
  of them was a \<^verbatim>\<open>close\<close> or a \<^verbatim>\<open>next\<close> answered by the end of the sequence.
\<close>

datatype usage = Next | Close

fun use ::
  "('g, 'a, 's) generator \<Rightarrow> usage list \<Rightarrow> 'g option \<Rightarrow> 's \<Rightarrow> bool \<times> 'g option \<times> 's" where
  "use G [] gen s = (False, gen, s)"
| "use G (Next # us) gen s =
     (case cg_next G gen s of
        (r, gen1, s1) \<Rightarrow>
          (case use G us gen1 s1 of
             (ended, gen2, s2) \<Rightarrow> (r = Inl StopIteration \<or> ended, gen2, s2)))"
| "use G (Close # us) gen s =
     (case cg_close G gen s of
        (was_open, gen1, s1) \<Rightarrow>
          (case use G us gen1 s1 of (ended, gen2, s2) \<Rightarrow> (True, gen2, s2)))"

text \<open>
  A generator given by its script: it yields the values of the script in turn, and when
  the script has an exception it raises it and is finished, as a Python generator is
  once an exception has left its body. Its state is the rest of the script.
\<close>

definition scripted :: "((exc + 'a) list, 'a, 's) generator" where
  "scripted = \<lparr>g_next = (\<lambda>g s. case g of
                               [] \<Rightarrow> (Inl StopIteration, [], s)
                             | Inr v # rest \<Rightarrow> (Inr v, rest, s)
                             | Inl e # rest \<Rightarrow> (Inl e, [], s)),
               g_close = (\<lambda>g s. ([], s))\<rparr>"

text \<open>
  For the proofs: what one recorded command makes the capturing backend report when it
  is replayed, the effect of one more command on a command list under the collapse
  rule, and the commands a session appends when nothing is collapsed.
\<close>

fun event_of :: "cmd \<Rightarrow> bevent" where
  "event_of (Context_enter title) = BEnter title"
| "event_of Context_exit = BExit"
| "event_of (Open_enter filename md lvl i) = BOpen filename md lvl i"
| "event_of (Open_exit data) = BClose (case data of None \<Rightarrow> [] | Some d \<Rightarrow> d)"
| "event_of (Write_cmd text lvl) = BWrite text lvl"

definition collapse_step :: "cmd list \<Rightarrow> cmd \<Rightarrow> cmd list" where
  "collapse_step m c =
     (if c = Context_exit \<and> m \<noteq> [] \<and> is_context_enter (last m) then butlast m else m @ [c])"

fun uncollapsed :: "call list \<Rightarrow> recordlog \<Rightarrow> cmd list" where
  "uncollapsed [] rl = []"
| "uncollapsed (Pushcontext title # cs) rl =
     Context_enter title # uncollapsed cs (drive RecordLog [Pushcontext title] rl)"
| "uncollapsed (Popcontext # cs) rl =
     Context_exit # uncollapsed cs (drive RecordLog [Popcontext] rl)"
| "uncollapsed (Write text lvl # cs) rl =
     Write_cmd text lvl # uncollapsed cs (drive RecordLog [Write text lvl] rl)"
| "uncollapsed (Open filename md lvl i chunks body raises # cs) rl =
     Open_enter filename md lvl i
       # uncollapsed body (snd (open_enter RecordLog filename md lvl i rl))
       @ Open_exit (case seen rl i of
                      Some d \<Rightarrow> Some d
                    | None \<Rightarrow> if raises then None else Some (concat chunks))
       # uncollapsed cs (drive RecordLog [Open filename md lvl i chunks body raises] rl)"

fun fresh_entry :: "string entry \<Rightarrow> bool" where
  "fresh_entry Ctx = True"
| "fresh_entry (Pair h) = (h = [])"

section \<open>Basic facts about the two logs\<close>

lemma CaptureLog_simps:
  "pushcontext CaptureLog title t = t @ [BEnter title]"
  "popcontext CaptureLog t = t @ [BExit]"
  "write_msg CaptureLog text lvl t = t @ [BWrite text lvl]"
  "open_enter CaptureLog filename md lvl i t = ([], t @ [BOpen filename md lvl i])"
  "file_write CaptureLog h d = h @ d"
  "open_exit CaptureLog h e t = t @ [BClose h]"
  by (simp_all add: CaptureLog_def)

lemma RecordLog_simps:
  "pushcontext RecordLog = rec_pushcontext"
  "popcontext RecordLog = rec_popcontext"
  "write_msg RecordLog = rec_write"
  "open_enter RecordLog = rec_open_enter"
  "file_write RecordLog = rec_file_write"
  "open_exit RecordLog = rec_open_exit"
  by (simp_all add: RecordLog_def)

lemma rec_open_enter_messages:
  "messages (snd (rec_open_enter filename md lvl i rl)) = messages rl @ [Open_enter filename md lvl i]"
  by (simp add: rec_open_enter_def Let_def split: option.split)

lemma rec_open_enter_seen:
  "seen (snd (rec_open_enter filename md lvl i rl)) = seen rl"
  by (simp add: rec_open_enter_def Let_def split: option.split)

lemma rec_open_enter_frame:
  "f_id (fst (rec_open_enter filename md lvl i rl)) = i"
  "f_data (fst (rec_open_enter filename md lvl i rl)) = seen rl i"
  "f_file (fst (rec_open_enter filename md lvl i rl))
     = (case seen rl i of None \<Rightarrow> Tempfile [] | Some d \<Rightarrow> Devnull)"
  by (simp_all add: rec_open_enter_def Let_def split: option.split)

lemma foldl_rec_file_write:
  "f_id (foldl rec_file_write fr chunks) = f_id fr"
  "f_data (foldl rec_file_write fr chunks) = f_data fr"
  "f_file (foldl rec_file_write fr chunks) = foldl fwrite (f_file fr) chunks"
  by (induction chunks arbitrary: fr) (simp_all add: rec_file_write_def)

lemma foldl_fwrite:
  "foldl fwrite Devnull chunks = Devnull"
  "foldl fwrite (Tempfile b) chunks = Tempfile (b @ concat chunks)"
  by (induction chunks arbitrary: b) simp_all

lemma rec_open_exit_messages:
  "messages (rec_open_exit fr e rl)
     = messages rl @ [Open_exit (case f_data fr of
                                   Some d \<Rightarrow> Some d
                                 | None \<Rightarrow> (case e of Some x \<Rightarrow> None
                                            | None \<Rightarrow> Some (fread (f_file fr))))]"
  by (simp add: rec_open_exit_def Let_def split: option.split)

lemma drive_pops:
  "messages rl = [] \<or> \<not> is_context_enter (last (messages rl)) \<Longrightarrow>
   drive RecordLog (replicate n Popcontext) rl = rl\<lparr>messages := messages rl @ replicate n Context_exit\<rparr>"
proof (induction n arbitrary: rl)
  case 0
  then show ?case by simp
next
  case (Suc n)
  let ?rl1 = "rl\<lparr>messages := messages rl @ [Context_exit]\<rparr>"
  from Suc.prems have step: "rec_popcontext rl = ?rl1"
    by (auto simp: rec_popcontext_def)
  have "drive RecordLog (replicate n Popcontext) ?rl1
      = ?rl1\<lparr>messages := messages ?rl1 @ replicate n Context_exit\<rparr>"
    by (rule Suc.IH) simp
  with step show ?case
    by (simp add: RecordLog_simps replicate_app_Cons_same)
qed

section \<open>Recorder: the collapse rule of popcontext\<close>

text \<open>
  C2: for every recording state, popcontext removes the most recently appended command
  when that command is a context_enter and otherwise appends a context_exit; pushing a
  context and popping it at once leaves the state as it was, so from the empty recorder
  it leaves zero recorded commands.
\<close>

theorem popcontext_collapse:
  "(messages rl \<noteq> [] \<and> is_context_enter (last (messages rl)) \<longrightarrow>
      popcontext RecordLog rl = rl\<lparr>messages := butlast (messages rl)\<rparr>) \<and>
   (\<not> (messages rl \<noteq> [] \<and> is_context_enter (last (messages rl))) \<longrightarrow>
      popcontext RecordLog rl = rl\<lparr>messages := messages rl @ [Context_exit]\<rparr>) \<and>
   popcontext RecordLog (pushcontext RecordLog title rl) = rl \<and>
   messages (popcontext RecordLog (pushcontext RecordLog ''A'' RecordLog_init)) = []"
  by (simp add: RecordLog_def rec_popcontext_def rec_pushcontext_def RecordLog_init_def)

theorem popcontext_collapse_witness:
  "messages \<lparr>messages = [Write_cmd ''x'' 1, Context_enter ''A''], seen = Map.empty\<rparr> \<noteq> [] \<and>
   popcontext RecordLog \<lparr>messages = [Write_cmd ''x'' 1, Context_enter ''A''], seen = Map.empty\<rparr>
     = \<lparr>messages = [Write_cmd ''x'' 1], seen = Map.empty\<rparr> \<and>
   popcontext RecordLog \<lparr>messages = [Write_cmd ''x'' 1], seen = Map.empty\<rparr>
     = \<lparr>messages = [Write_cmd ''x'' 1, Context_exit], seen = Map.empty\<rparr>"
  using popcontext_collapse [of "\<lparr>messages = [Write_cmd ''x'' 1, Context_enter ''A''], seen = Map.empty\<rparr>"]
    popcontext_collapse [of "\<lparr>messages = [Write_cmd ''x'' 1], seen = Map.empty\<rparr>"]
  by simp

text \<open>
  C9: popcontext of the recorder is total. On an empty command sequence, or one whose
  last command is not a context_enter, it appends a bare context_exit; in every state
  it returns a state, with the cache untouched; and more pops than pushes are accepted:
  \<open>n\<close> pops on the empty recorder record \<open>n\<close> context_exit commands.
\<close>

theorem popcontext_total:
  "(messages rl = [] \<or> \<not> is_context_enter (last (messages rl)) \<longrightarrow>
      popcontext RecordLog rl = rl\<lparr>messages := messages rl @ [Context_exit]\<rparr>) \<and>
   (\<exists>rl1. popcontext RecordLog rl = rl1 \<and> seen rl1 = seen rl \<and>
      (messages rl1 = butlast (messages rl) \<or> messages rl1 = messages rl @ [Context_exit])) \<and>
   messages (drive RecordLog (replicate n Popcontext) RecordLog_init) = replicate n Context_exit"
proof -
  have "messages (drive RecordLog (replicate n Popcontext) RecordLog_init) = replicate n Context_exit"
    by (subst drive_pops) (simp_all add: RecordLog_init_def)
  then show ?thesis
    by (auto simp: RecordLog_simps rec_popcontext_def)
qed

theorem popcontext_total_witness:
  "popcontext RecordLog RecordLog_init = \<lparr>messages = [Context_exit], seen = Map.empty\<rparr> \<and>
   messages (drive RecordLog [Popcontext, Popcontext, Popcontext] RecordLog_init)
     = [Context_exit, Context_exit, Context_exit]"
  using popcontext_total [of RecordLog_init 3]
  by (simp add: RecordLog_init_def numeral_3_eq_3 RecordLog_simps rec_popcontext_def)

section \<open>Recorder: the scope of open\<close>

text \<open>
  C7, as the code has it. For every call of the recorder's open, the open_enter command
  is appended on entry, before the block runs, and leaving the scope appends exactly one
  open_exit command, whether or not the block raised. Its data is None exactly when the
  id was not in the cache on entry and the block raised, so that the file was never read
  back; otherwise it is the cached value or the content read back, which is the empty
  string when nothing was written. Replaying an open_exit whose data is None closes the
  target's file resource as open_enter returned it, with no write; with data, the empty
  string included, it writes the data first.
\<close>

theorem open_always_exits:
  "messages (snd (open_enter RecordLog filename md lvl i rl))
     = messages rl @ [Open_enter filename md lvl i] \<and>
   f_data (fst (open_enter RecordLog filename md lvl i rl)) = seen rl i \<and>
   messages (open_exit RecordLog fr e rl1)
     = messages rl1 @ [Open_exit (case f_data fr of
                                    Some d \<Rightarrow> Some d
                                  | None \<Rightarrow> (case e of Some x \<Rightarrow> None
                                             | None \<Rightarrow> Some (fread (f_file fr))))] \<and>
   messages (drive RecordLog [Open filename md lvl i chunks body raises] rl)
     = messages (drive RecordLog body (snd (open_enter RecordLog filename md lvl i rl)))
       @ [Open_exit (case seen rl i of
                       Some d \<Rightarrow> Some d
                     | None \<Rightarrow> if raises then None else Some (concat chunks))] \<and>
   replay_step L (Open_exit None) (Pair h # contexts, s) = Inr (contexts, open_exit L h None s) \<and>
   replay_step L (Open_exit (Some d)) (Pair h # contexts, s)
     = Inr (contexts, open_exit L (file_write L h d) None s)"
  by (simp add: RecordLog_simps rec_open_enter_messages rec_open_exit_messages rec_open_enter_frame
      foldl_rec_file_write foldl_fwrite split: option.split)

theorem open_always_exits_witness:
  "messages (drive RecordLog [Open ''out.txt'' ''w'' 1 None [''da'', ''ta''] [Write ''x'' 0] True]
       RecordLog_init)
     = [Open_enter ''out.txt'' ''w'' 1 None, Write_cmd ''x'' 0, Open_exit None] \<and>
   messages (drive RecordLog [Open ''out.txt'' ''w'' 1 None [''da'', ''ta''] [Write ''x'' 0] False]
       RecordLog_init)
     = [Open_enter ''out.txt'' ''w'' 1 None, Write_cmd ''x'' 0, Open_exit (Some ''data'')] \<and>
   replay_step CaptureLog (Open_exit None) ([Pair []], [BOpen ''out.txt'' ''w'' 1 None])
     = Inr ([], [BOpen ''out.txt'' ''w'' 1 None, BClose []])"
  using open_always_exits [of "''out.txt''" "''w''" 1 None RecordLog_init _ _ _
      "[''da'', ''ta'']" "[Write ''x'' 0]" True CaptureLog "[]" "[]" "[BOpen ''out.txt'' ''w'' 1 None]"]
    open_always_exits [of "''out.txt''" "''w''" 1 None RecordLog_init _ _ _
      "[''da'', ''ta'']" "[Write ''x'' 0]" False]
  by (simp add: RecordLog_init_def RecordLog_simps rec_open_enter_def rec_write_def
      rec_file_write_def rec_open_exit_def CaptureLog_simps)

text \<open>
  C7 as stated fails: the claim has the data equal to None when no bytes were ever
  captured. A call with an unseen id whose block writes nothing and ends normally records
  open_exit with the empty string, and so does a later call that finds this empty value
  in the cache; neither records None.
\<close>

theorem open_exit_data_counterexample:
  "messages (drive RecordLog [Open ''out.txt'' ''w'' 1 None [] [] False] RecordLog_init)
     = [Open_enter ''out.txt'' ''w'' 1 None, Open_exit (Some [])] \<and>
   messages (drive RecordLog [Open ''a'' ''w'' 1 (Some ''k'') [] [] False,
       Open ''b'' ''w'' 1 (Some ''k'') [] [] False] RecordLog_init)
     = [Open_enter ''a'' ''w'' 1 (Some ''k''), Open_exit (Some []),
        Open_enter ''b'' ''w'' 1 (Some ''k''), Open_exit (Some [])] \<and>
   Open_exit (Some []) \<noteq> Open_exit None"
  by code_simp

text \<open>
  C10: when the id is not in the seen-cache at the time of the call and the block
  raises, open stores nothing: entering appends the open_enter command and leaves the
  cache as it is, and leaving, in whatever state the block left the recorder, only
  appends open_exit(None). With a block that makes no log call the whole call changes
  the recording by this pair of commands and nothing else.
\<close>

theorem open_raise_leaves_cache:
  assumes "seen rl i = None"
  shows "open_enter RecordLog filename md lvl i rl
           = (\<lparr>f_id = i, f_data = None, f_file = Tempfile []\<rparr>,
              rl\<lparr>messages := messages rl @ [Open_enter filename md lvl i]\<rparr>) \<and>
         open_exit RecordLog
             (foldl (file_write RecordLog) (fst (open_enter RecordLog filename md lvl i rl)) chunks)
             (Some e) rl2
           = rl2\<lparr>messages := messages rl2 @ [Open_exit None]\<rparr> \<and>
         drive RecordLog [Open filename md lvl i chunks [] True] rl
           = rl\<lparr>messages := messages rl @ [Open_enter filename md lvl i, Open_exit None]\<rparr>"
  using assms
  by (simp add: RecordLog_simps rec_open_enter_def rec_open_exit_def foldl_rec_file_write)

theorem open_raise_leaves_cache_witness:
  "seen RecordLog_init (Some ''k'') = None \<and>
   drive RecordLog [Open ''out.txt'' ''w'' 1 (Some ''k'') [''partial''] [] True] RecordLog_init
     = \<lparr>messages = [Open_enter ''out.txt'' ''w'' 1 (Some ''k''), Open_exit None], seen = Map.empty\<rparr>"
proof -
  have h: "seen RecordLog_init (Some ''k'') = None"
    by (simp add: RecordLog_init_def)
  show ?thesis
    using h open_raise_leaves_cache [OF h, of "''out.txt''" "''w''" 1 "[''partial'']"]
    by (simp add: RecordLog_init_def RecordLog_simps rec_open_enter_def rec_open_exit_def
        rec_file_write_def)
qed

section \<open>The log contract: derived methods\<close>

lemma join_concat:
  "join sep (a # rest) = a @ concat (map (\<lambda>x. sep @ x) rest)"
  by (induction rest arbitrary: a) simp_all

text \<open>
  C5: each of the five leveled message methods joins its arguments with the separator,
  one space by default, and calls write with the joined string and its own level: debug
  0, info 1, user 2, warning 3, error 4. The joined string is empty for no argument, and
  otherwise the first argument followed by each further argument with the separator in
  front of it. So warning("a", "b") is write("a b", 3), and with sep="-" it writes "a-b".
\<close>

theorem leveled_methods:
  "debug L args sep s
     = write_msg L (case args of [] \<Rightarrow> []
                    | a # rest \<Rightarrow> a @ concat (map (\<lambda>x. (case sep of None \<Rightarrow> '' '' | Some y \<Rightarrow> y) @ x) rest)) 0 s \<and>
   info L args sep s
     = write_msg L (case args of [] \<Rightarrow> []
                    | a # rest \<Rightarrow> a @ concat (map (\<lambda>x. (case sep of None \<Rightarrow> '' '' | Some y \<Rightarrow> y) @ x) rest)) 1 s \<and>
   user L args sep s
     = write_msg L (case args of [] \<Rightarrow> []
                    | a # rest \<Rightarrow> a @ concat (map (\<lambda>x. (case sep of None \<Rightarrow> '' '' | Some y \<Rightarrow> y) @ x) rest)) 2 s \<and>
   warning L args sep s
     = write_msg L (case args of [] \<Rightarrow> []
                    | a # rest \<Rightarrow> a @ concat (map (\<lambda>x. (case sep of None \<Rightarrow> '' '' | Some y \<Rightarrow> y) @ x) rest)) 3 s \<and>
   error L args sep s
     = write_msg L (case args of [] \<Rightarrow> []
                    | a # rest \<Rightarrow> a @ concat (map (\<lambda>x. (case sep of None \<Rightarrow> '' '' | Some y \<Rightarrow> y) @ x) rest)) 4 s \<and>
   warning L [] None s = write_msg L [] 3 s \<and>
   warning L [''a''] None s = write_msg L ''a'' 3 s \<and>
   warning L [''a'', ''b''] None s = write_msg L ''a b'' 3 s \<and>
   warning L [''a'', ''b''] (Some ''-'') s = write_msg L ''a-b'' 3 s \<and>
   warning L [''a'', ''b'', ''c''] (Some '', '') s = write_msg L ''a, b, c'' 3 s"
  by (simp add: debug_def info_def user_def warning_def error_def print_level_def join_concat
      split: list.split)

theorem leveled_methods_witness:
  "warning RecordLog [''a''] None RecordLog_init
     = \<lparr>messages = [Write_cmd ''a'' 3], seen = Map.empty\<rparr> \<and>
   warning RecordLog [''a'', ''b''] None RecordLog_init
     = \<lparr>messages = [Write_cmd ''a b'' 3], seen = Map.empty\<rparr> \<and>
   warning RecordLog [''a'', ''b''] (Some ''-'') RecordLog_init
     = \<lparr>messages = [Write_cmd ''a-b'' 3], seen = Map.empty\<rparr> \<and>
   error RecordLog [''a'', ''b'', ''c''] (Some '', '') RecordLog_init
     = \<lparr>messages = [Write_cmd ''a, b, c'' 4], seen = Map.empty\<rparr> \<and>
   debug RecordLog [] None RecordLog_init
     = \<lparr>messages = [Write_cmd [] 0], seen = Map.empty\<rparr>"
  using leveled_methods [of RecordLog "[''a'']" None RecordLog_init]
    leveled_methods [of RecordLog "[''a'', ''b'']" None RecordLog_init]
    leveled_methods [of RecordLog "[''a'', ''b'']" "Some ''-''" RecordLog_init]
    leveled_methods [of RecordLog "[''a'', ''b'', ''c'']" "Some '', ''" RecordLog_init]
    leveled_methods [of RecordLog "[]" None RecordLog_init]
  by (simp add: RecordLog_simps rec_write_def RecordLog_init_def)

text \<open>
  C6: for every log and text, the scope of context calls pushcontext(text) on entry and
  then runs the block; whatever the block returns or raises, popcontext is applied once
  to the state the block left, and the block's outcome, an exception included, is the
  outcome of the scope, unchanged. Nothing else is done to the log.
\<close>

theorem context_always_pops:
  assumes "block (pushcontext L text s) = (r, s1)"
  shows "with_context L text block s = (r, popcontext L s1)"
  using assms by (simp add: with_context_def context_enter_def context_exit_def)

theorem context_always_pops_witness:
  "with_context CaptureLog ''A'' (\<lambda>t. (Inl (Raised ''boom'') :: exc + unit, t @ [BWrite ''x'' 1])) []
     = (Inl (Raised ''boom''), [BEnter ''A'', BWrite ''x'' 1, BExit])"
  using context_always_pops [of "\<lambda>t. (Inl (Raised ''boom'') :: exc + unit, t @ [BWrite ''x'' 1])"
      CaptureLog "''A''" "[]" "Inl (Raised ''boom'')" "[BEnter ''A'', BWrite ''x'' 1]"]
  by (simp add: CaptureLog_simps)

section \<open>Scoped generators: close\<close>

lemma use_None: "use G us None s = (us \<noteq> [], None, s)"
proof (induction us arbitrary: s)
  case Nil
  show ?case by simp
next
  case (Cons u us)
  show ?case
    by (cases u) (simp_all add: Cons.IH cg_next_def cg_close_def)
qed

lemma use_Some: "(fst (snd (use G us (Some g) s)) = None) = fst (use G us (Some g) s)"
proof (induction us arbitrary: g s)
  case Nil
  show ?case by simp
next
  case (Cons u us)
  show ?case
  proof (cases u)
    case Next
    obtain r g1 s1 where n: "g_next G g s = (r, g1, s1)"
      by (cases "g_next G g s") auto
    show ?thesis
    proof (cases "r = Inl StopIteration")
      case True
      with n have "cg_next G (Some g) s = (Inl StopIteration, None, s1)"
        by (simp add: cg_next_def)
      then show ?thesis
        by (simp add: Next use_None)
    next
      case False
      with n have "cg_next G (Some g) s = (r, Some g1, s1)"
        by (auto simp: cg_next_def split: sum.splits exc.splits)
      with False Cons.IH [of g1 s1] show ?thesis
        by (simp add: Next split: prod.splits)
    qed
  next
    case Close
    then show ?thesis
      by (simp add: cg_close_def use_None split: prod.splits)
  qed
qed

text \<open>
  C8, as the code has it. For every ClosingGenerator and every sequence of next and close
  steps on it, close returns a true value exactly when the wrapper still holds its
  generator, which is when no earlier step was a close or a next answered by the end of
  the sequence. A next that returns a value, or that raises another exception, keeps the
  reference, updated. A close on a held generator closes it and clears the reference; a
  further close returns the falsy result and changes nothing. When the generator signals
  the end of the sequence, next clears the reference and passes the signal on; from then
  on next signals the end again and close is without effect. Finalization warns exactly
  when the reference is still held, so not after exhaustion or close.
\<close>

theorem closing_generator_close:
  "fst (cg_close G (fst (snd (use G us (Some g) s))) (snd (snd (use G us (Some g) s))))
     = (\<not> fst (use G us (Some g) s)) \<and>
   cg_close G (Some g) s = (True, None, snd (g_close G g s)) \<and>
   cg_close G None s = (False, None, s) \<and>
   cg_close G (fst (snd (cg_close G gen s))) (snd (snd (cg_close G gen s)))
     = (False, None, snd (snd (cg_close G gen s))) \<and>
   (fst (g_next G g s) = Inl StopIteration \<longrightarrow>
      cg_next G (Some g) s = (Inl StopIteration, None, snd (snd (g_next G g s)))) \<and>
   (fst (g_next G g s) \<noteq> Inl StopIteration \<longrightarrow>
      cg_next G (Some g) s
        = (fst (g_next G g s), Some (fst (snd (g_next G g s))), snd (snd (g_next G g s)))) \<and>
   cg_next G None s = (Inl StopIteration, None, s) \<and>
   fst (cg_del G gen s) = (gen \<noteq> None) \<and>
   cg_del G None s = (False, None, s)"
proof -
  have a: "fst (cg_close G (fst (snd (use G us (Some g) s))) (snd (snd (use G us (Some g) s))))
      = (\<not> fst (use G us (Some g) s))"
    using use_Some [of G us g s]
    by (cases "fst (snd (use G us (Some g) s))") (auto simp: cg_close_def split: prod.splits)
  have b: "fst (g_next G g s) \<noteq> Inl StopIteration \<longrightarrow>
      cg_next G (Some g) s
        = (fst (g_next G g s), Some (fst (snd (g_next G g s))), snd (snd (g_next G g s)))"
    by (cases "g_next G g s") (auto simp: cg_next_def split: sum.splits exc.splits)
  have c: "cg_close G (Some g) s = (True, None, snd (g_close G g s)) \<and>
      cg_close G None s = (False, None, s) \<and>
      cg_close G (fst (snd (cg_close G gen s))) (snd (snd (cg_close G gen s)))
        = (False, None, snd (snd (cg_close G gen s))) \<and>
      (fst (g_next G g s) = Inl StopIteration \<longrightarrow>
        cg_next G (Some g) s = (Inl StopIteration, None, snd (snd (g_next G g s)))) \<and>
      cg_next G None s = (Inl StopIteration, None, s) \<and>
      fst (cg_del G gen s) = (gen \<noteq> None) \<and>
      cg_del G None s = (False, None, s)"
    by (cases gen)
      (auto simp: cg_close_def cg_next_def cg_del_def split: prod.splits sum.splits exc.splits)
  from a b c show ?thesis by blast
qed

theorem closing_generator_close_witness:
  "fst (use (iter_generator CaptureLog) [Next] (Some (Suspended ''t'' None [5::nat] 0))
          [BEnter ''t 0'']) = False \<and>
   fst (cg_close (iter_generator CaptureLog)
          (fst (snd (use (iter_generator CaptureLog) [Next]
                       (Some (Suspended ''t'' None [5::nat] 0)) [BEnter ''t 0''])))
          (snd (snd (use (iter_generator CaptureLog) [Next]
                       (Some (Suspended ''t'' None [5::nat] 0)) [BEnter ''t 0''])))) = True \<and>
   fst (use (iter_generator CaptureLog) [Next, Next] (Some (Suspended ''t'' None [5::nat] 0))
          [BEnter ''t 0'']) = True \<and>
   fst (cg_close (iter_generator CaptureLog)
          (fst (snd (use (iter_generator CaptureLog) [Next, Next]
                       (Some (Suspended ''t'' None [5::nat] 0)) [BEnter ''t 0''])))
          (snd (snd (use (iter_generator CaptureLog) [Next, Next]
                       (Some (Suspended ''t'' None [5::nat] 0)) [BEnter ''t 0''])))) = False"
proof -
  let ?G = "iter_generator CaptureLog :: (nat gen, nat, bevent list) generator"
  let ?g = "Suspended ''t'' None [5::nat] 0"
  have f1: "fst (use ?G [Next] (Some ?g) [BEnter ''t 0'']) = False"
    by code_simp
  have f2: "fst (use ?G [Next, Next] (Some ?g) [BEnter ''t 0'']) = True"
    by code_simp
  note th1 = closing_generator_close [where G = ?G and us = "[Next]" and g = ?g
      and s = "[BEnter ''t 0'']", THEN conjunct1]
  note th2 = closing_generator_close [where G = ?G and us = "[Next, Next]" and g = ?g
      and s = "[BEnter ''t 0'']", THEN conjunct1]
  from th1 th2 f1 f2 show ?thesis by metis
qed

text \<open>
  C8 as stated fails: the claim has close return a true value exactly when the wrapped
  producer was still open. A generator that raised another exception than the end of the
  sequence is finished, and answers a further next by the end of the sequence, but the
  wrapper still holds it: close returns the true value and finalization would warn.
\<close>

theorem closing_generator_counterexample:
  "cg_next scripted (Some [Inl (Raised ''boom'') :: exc + nat]) (0::nat)
     = (Inl (Raised ''boom''), Some [], 0) \<and>
   g_next scripted ([] :: (exc + nat) list) (0::nat) = (Inl StopIteration, [], 0) \<and>
   cg_close scripted (Some ([] :: (exc + nat) list)) (0::nat) = (True, None, 0) \<and>
   cg_del scripted (Some ([] :: (exc + nat) list)) (0::nat) = (True, None, 0)"
  by (simp add: scripted_def cg_next_def cg_close_def cg_del_def)

section \<open>The log contract: iter\<close>

lemma cg_next_suspended_Cons:
  "cg_next (iter_generator CaptureLog) (Some (Suspended title lg (x # rest) i)) t
     = (Inr x, Some (Suspended title lg rest (Suc i)),
        t @ [BExit, BEnter (iter_text title lg (Suc i))])"
  by (simp add: cg_next_def iter_generator_def gen_loop_def CaptureLog_simps)

lemma cg_next_suspended_Nil:
  "cg_next (iter_generator CaptureLog) (Some (Suspended title lg [] i)) t
     = (Inl StopIteration, None,
        t @ [BExit, BEnter (iter_text title lg (Suc i)), BExit])"
  by (simp add: cg_next_def iter_generator_def gen_loop_def CaptureLog_simps)

lemma cg_next_created:
  "cg_next (iter_generator CaptureLog) (Some (Created title it lgth)) t
     = (case items it of
          [] \<Rightarrow> (Inl StopIteration, None,
                 t @ [BEnter (iter_text title (case lgth of None \<Rightarrow> len it | Some n \<Rightarrow> Some n) 0), BExit])
        | x # rest \<Rightarrow> (Inr x,
                 Some (Suspended title (case lgth of None \<Rightarrow> len it | Some n \<Rightarrow> Some n) rest 0),
                 t @ [BEnter (iter_text title (case lgth of None \<Rightarrow> len it | Some n \<Rightarrow> Some n) 0)]))"
  by (simp add: cg_next_def iter_generator_def gen_loop_def CaptureLog_simps split: list.split)

lemma pull_suspended:
  "k \<le> length rest \<Longrightarrow>
   pull (iter_generator CaptureLog) k (Some (Suspended title lg rest i)) t
     = (take k rest, False, Some (Suspended title lg (drop k rest) (i + k)),
        t @ concat (map (\<lambda>j. [BExit, BEnter (iter_text title lg (Suc (i + j)))]) [0..<k]))"
proof (induction k arbitrary: rest i t)
  case 0
  then show ?case by simp
next
  case (Suc k)
  then obtain x rest1 where rest: "rest = x # rest1" and k: "k \<le> length rest1"
    by (cases rest) auto
  show ?case
    unfolding rest
    by (simp add: cg_next_suspended_Cons Suc.IH [OF k] map_upt_Suc del: upt_Suc)
qed

lemma pull_suspended_all:
  "pull (iter_generator CaptureLog) (Suc (length rest)) (Some (Suspended title lg rest i)) t
     = (rest, True, None,
        t @ concat (map (\<lambda>j. [BExit, BEnter (iter_text title lg (Suc (i + j)))]) [0..<Suc (length rest)])
          @ [BExit])"
proof (induction rest arbitrary: i t)
  case Nil
  show ?case by (simp add: cg_next_suspended_Nil)
next
  case (Cons x rest)
  show ?case
    by (subst pull.simps(2))
      (simp add: cg_next_suspended_Cons Cons.IH map_upt_Suc del: upt_Suc pull.simps)
qed

lemma interleave_pairs:
  "a 0 # concat (map (\<lambda>j. [b, a (Suc j)]) [0..<k]) @ [b]
     = concat (map (\<lambda>j. [a j, b]) [0..<Suc k])"
  by (induction k) simp_all

lemma percent_nearest:
  assumes "0 < n"
  shows "2 * (percent i n * n) \<le> 2 * (100 * i + 50) + n \<and>
         2 * (100 * i + 50) \<le> 2 * (percent i n * n) + n"
proof -
  define a where "a = 100 * i + 50"
  define q where "q = a div n"
  define r where "r = a mod n"
  define qn where "qn = q * n"
  have a: "a = qn + r"
    by (simp add: q_def r_def qn_def)
  have r: "r < n"
    using assms by (simp add: r_def)
  have p: "percent i n = (if 2 * r < n then q else if n < 2 * r then q + 1
                          else if even q then q else q + 1)"
    by (simp add: percent_def Let_def a_def q_def r_def)
  have s: "(q + 1) * n = qn + n"
    by (simp add: qn_def)
  have "2 * (percent i n * n) \<le> 2 * a + n \<and> 2 * a \<le> 2 * (percent i n * n) + n"
    unfolding p using a r by (auto simp: s qn_def [symmetric])
  then show ?thesis
    by (simp add: a_def)
qed

lemma pull_iter_part:
  assumes "k \<le> length (items it)"
  shows "consume (iter_generator CaptureLog) k (iter title it lgth) t0
           = (take k (items it), False, None,
              t0 @ context_pairs title (case lgth of None \<Rightarrow> len it | Some n \<Rightarrow> Some n) k)"
proof (cases k)
  case 0
  then show ?thesis
    by (simp add: consume_def cg_exit_def iter_def cg_close_def iter_generator_def context_pairs_def)
next
  case (Suc k1)
  let ?G = "iter_generator CaptureLog"
  let ?lg = "case lgth of None \<Rightarrow> len it | Some n \<Rightarrow> Some n"
  let ?a = "\<lambda>j. BEnter (iter_text title ?lg j)"
  from Suc assms obtain x rest where it: "items it = x # rest" and k1: "k1 \<le> length rest"
    by (cases "items it") auto
  have p: "pull ?G k (iter title it lgth) t0
      = (x # take k1 rest, False, Some (Suspended title ?lg (drop k1 rest) k1),
         t0 @ ?a 0 # concat (map (\<lambda>j. [BExit, ?a (Suc j)]) [0..<k1]))"
    unfolding Suc iter_def
    by (subst pull.simps(2)) (simp add: cg_next_created it pull_suspended [OF k1] del: pull.simps)
  have "t0 @ ?a 0 # concat (map (\<lambda>j. [BExit, ?a (Suc j)]) [0..<k1]) @ [BExit]
      = t0 @ context_pairs title ?lg k"
    unfolding Suc context_pairs_def using interleave_pairs [of ?a BExit k1] by simp
  with p show ?thesis
    by (simp add: consume_def cg_exit_def it Suc cg_close_def iter_generator_def CaptureLog_simps)
qed

lemma pull_iter_all:
  "pull (iter_generator CaptureLog) (Suc (length (items it))) (iter title it lgth) t0
     = (items it, True, None,
        t0 @ context_pairs title (case lgth of None \<Rightarrow> len it | Some n \<Rightarrow> Some n)
               (Suc (length (items it))))"
proof (cases "items it")
  case Nil
  then show ?thesis
    by (simp add: iter_def cg_next_created context_pairs_def)
next
  case (Cons x rest)
  let ?lg = "case lgth of None \<Rightarrow> len it | Some n \<Rightarrow> Some n"
  let ?a = "\<lambda>j. BEnter (iter_text title ?lg j)"
  have "t0 @ ?a 0 # concat (map (\<lambda>j. [BExit, ?a (Suc j)]) [0..<Suc (length rest)]) @ [BExit]
      = t0 @ context_pairs title ?lg (Suc (Suc (length rest)))"
    unfolding context_pairs_def using interleave_pairs [of ?a BExit "Suc (length rest)"] by simp
  then show ?thesis
    unfolding Cons iter_def
    by (subst pull.simps(2))
      (simp add: cg_next_created Cons pull_suspended_all del: pull.simps upt_Suc)
qed

text \<open>
  C4, as the code has it. On a log that captures its calls, a consumer that takes \<open>k\<close>
  of the elements and leaves the scope has caused exactly the contexts of the indices
  below \<open>k\<close>, each pushed and popped before the next, and has received the first \<open>k\<close>
  elements. A consumer that runs to the end of a sequence of \<open>n\<close> elements has caused
  the contexts of the indices \<open>0\<close> to \<open>n\<close>: before the end is signalled, one more context
  is pushed for the index \<open>n\<close> and popped at once; the wrapper's reference is then
  cleared. On a recorder that last pair leaves no command. The title of index \<open>i\<close> is
  the title, a space and \<open>i\<close>, followed by the percentage \<open>100 * (i + 0.5) / length\<close>,
  rounded to an integer at most one half away from it, when the length is known and not
  zero.
\<close>

theorem iter_contexts:
  assumes "k \<le> length (items it)"
  shows "consume (iter_generator CaptureLog) k (iter title it lgth) t0
           = (take k (items it), False, None,
              t0 @ context_pairs title (case lgth of None \<Rightarrow> len it | Some n \<Rightarrow> Some n) k) \<and>
         pull (iter_generator CaptureLog) (Suc (length (items it))) (iter title it lgth) t0
           = (items it, True, None,
              t0 @ context_pairs title (case lgth of None \<Rightarrow> len it | Some n \<Rightarrow> Some n)
                     (Suc (length (items it)))) \<and>
         snd (snd (cg_next (iter_generator RecordLog) (Some (Suspended title lg ([]::'a list) i)) rl))
           = popcontext RecordLog rl \<and>
         iter_text title None i = title @ '' '' @ str_nat i \<and>
         iter_text title (Some 0) i = title @ '' '' @ str_nat i \<and>
         iter_text title (Some (Suc n)) i
           = title @ '' '' @ str_nat i @ '' ('' @ str_nat (percent i (Suc n)) @ ''%)'' \<and>
         2 * (percent i (Suc n) * Suc n) \<le> 2 * (100 * i + 50) + Suc n \<and>
         2 * (100 * i + 50) \<le> 2 * (percent i (Suc n) * Suc n) + Suc n"
proof -
  have "snd (snd (cg_next (iter_generator RecordLog) (Some (Suspended title lg ([]::'a list) i)) rl))
      = popcontext RecordLog rl"
    by (simp add: cg_next_def iter_generator_def gen_loop_def RecordLog_simps rec_pushcontext_def
        rec_popcontext_def)
  moreover have "iter_text title None i = title @ '' '' @ str_nat i"
    and "iter_text title (Some 0) i = title @ '' '' @ str_nat i"
    and "iter_text title (Some (Suc n)) i
           = title @ '' '' @ str_nat i @ '' ('' @ str_nat (percent i (Suc n)) @ ''%)''"
    by (simp_all add: iter_text_def)
  moreover have "2 * (percent i (Suc n) * Suc n) \<le> 2 * (100 * i + 50) + Suc n \<and>
      2 * (100 * i + 50) \<le> 2 * (percent i (Suc n) * Suc n) + Suc n"
    by (rule percent_nearest) simp
  ultimately show ?thesis
    using pull_iter_part [OF assms, of title lgth t0] pull_iter_all [of it title lgth t0]
    by blast
qed

theorem iter_contexts_witness:
  "(1::nat) \<le> length (items (Sized [7::nat, 8, 9])) \<and>
   consume (iter_generator CaptureLog) 1 (iter ''item'' (Sized [7::nat, 8, 9]) None) []
     = ([7], False, None, [BEnter ''item 0 (17%)'', BExit]) \<and>
   pull (iter_generator CaptureLog) 4 (iter ''item'' (Sized [7::nat, 8, 9]) None) []
     = ([7, 8, 9], True, None,
        [BEnter ''item 0 (17%)'', BExit, BEnter ''item 1 (50%)'', BExit,
         BEnter ''item 2 (83%)'', BExit, BEnter ''item 3 (117%)'', BExit])"
proof -
  have h: "(1::nat) \<le> length (items (Sized [7::nat, 8, 9]))"
    by simp
  have n4: "Suc (length (items (Sized [7::nat, 8, 9]))) = 4"
    by simp
  have lg: "(case None of None \<Rightarrow> len (Sized [7::nat, 8, 9]) | Some n \<Rightarrow> Some n) = Some 3"
    by simp
  have cp1: "context_pairs ''item'' (Some 3) 1 = [BEnter ''item 0 (17%)'', BExit]"
    by code_simp
  have cp4: "context_pairs ''item'' (Some 3) 4
      = [BEnter ''item 0 (17%)'', BExit, BEnter ''item 1 (50%)'', BExit,
         BEnter ''item 2 (83%)'', BExit, BEnter ''item 3 (117%)'', BExit]"
    by code_simp
  note th = iter_contexts [OF h, of "''item''" None "[]"]
  show ?thesis
    using h th [THEN conjunct1] th [THEN conjunct2, THEN conjunct1]
    unfolding n4 lg cp1 cp4 by simp
qed

text \<open>
  C4 as stated fails: the claim has contexts pushed for consumed elements only and no
  trailing context at the end of the sequence. Run to the end, an empty sequence still
  gets the context of index 0, and a sequence of one element the context of index 1.
\<close>

theorem iter_trailing_context_counterexample:
  "pull (iter_generator CaptureLog) 1 (iter ''item'' (Sized ([]::nat list)) None) []
     = ([], True, None, [BEnter ''item 0'', BExit]) \<and>
   pull (iter_generator CaptureLog) 2 (iter ''item'' (Sized [7::nat]) None) []
     = ([7], True, None,
        [BEnter ''item 0 (50%)'', BExit, BEnter ''item 1 (150%)'', BExit])"
  by code_simp

section \<open>Recording and replay\<close>

text \<open>
  What a session records is what it would append with no collapsing, folded through the
  collapse rule of popcontext.
\<close>

lemma rec_popcontext_messages:
  "messages (rec_popcontext rl) = collapse_step (messages rl) Context_exit"
  by (simp add: rec_popcontext_def collapse_step_def)

lemma messages_drive:
  "messages (drive RecordLog cs rl) = foldl collapse_step (messages rl) (uncollapsed cs rl)"
proof (induction cs rl rule: uncollapsed.induct)
  case (1 rl)
  show ?case by simp
next
  case (2 title cs rl)
  then show ?case
    by (simp add: RecordLog_simps rec_pushcontext_def collapse_step_def)
next
  case (3 cs rl)
  then show ?case
    by (simp add: RecordLog_simps rec_popcontext_messages)
next
  case (4 msg lvl cs rl)
  then show ?case
    by (simp add: RecordLog_simps rec_write_def collapse_step_def)
next
  case (5 filename md lvl i chunks body raises cs rl)
  then show ?case
    by (simp add: RecordLog_simps rec_open_exit_messages rec_open_enter_messages
        rec_open_enter_frame foldl_rec_file_write foldl_fwrite collapse_step_def
        split: option.split)
qed

text \<open>
  Driven directly with the cached view of a session, the capturing backend reports the
  events of the uncollapsed commands.
\<close>

lemma foldl_capture_write:
  "foldl (file_write CaptureLog) h chunks = h @ concat chunks"
  by (induction chunks arbitrary: h) (simp_all add: CaptureLog_simps)

lemma drive_capture_view:
  "no_raise cs \<Longrightarrow>
   drive CaptureLog (cached_view cs rl) t = t @ map event_of (uncollapsed cs rl)"
proof (induction cs rl arbitrary: t rule: uncollapsed.induct)
  case (1 rl)
  show ?case by simp
next
  case (2 title cs rl)
  then show ?case by (simp add: CaptureLog_simps)
next
  case (3 cs rl)
  then show ?case by (simp add: CaptureLog_simps)
next
  case (4 msg lvl cs rl)
  then show ?case by (simp add: CaptureLog_simps)
next
  case (5 filename md lvl i chunks body raises cs rl)
  then show ?case
    by (simp add: CaptureLog_simps foldl_capture_write split: option.split)
qed

text \<open>
  Replay onto the capturing backend: each command that is replayed adds its one event,
  and the files on the replay stack are untouched until their exit.
\<close>

lemma replay_from_append:
  "replay_from L (a @ b) x
     = (case replay_from L a x of Inl e \<Rightarrow> Inl e | Inr y \<Rightarrow> replay_from L b y)"
  by (induction a arbitrary: x) (simp_all split: sum.split)

lemma replay_step_capture:
  "replay_step CaptureLog c (st, t) = Inr (st1, t1) \<Longrightarrow> list_all fresh_entry st \<Longrightarrow>
   t1 = t @ [event_of c] \<and> list_all fresh_entry st1"
  by (cases c; cases st; cases "hd st")
    (auto simp: CaptureLog_simps context_enter_def context_exit_def split: option.splits)

lemma replay_from_capture:
  "replay_from CaptureLog m (st, t) = Inr (st1, t1) \<Longrightarrow> list_all fresh_entry st \<Longrightarrow>
   t1 = t @ map event_of m \<and> list_all fresh_entry st1"
proof (induction m arbitrary: st t)
  case Nil
  then show ?case by simp
next
  case (Cons c m)
  from Cons.prems(1) obtain st2 t2 where
    step: "replay_step CaptureLog c (st, t) = Inr (st2, t2)" and
    rest: "replay_from CaptureLog m (st2, t2) = Inr (st1, t1)"
    by (auto split: sum.splits)
  from replay_step_capture [OF step Cons.prems(2)]
  have t2: "t2 = t @ [event_of c]" and fr: "list_all fresh_entry st2" by simp_all
  from Cons.IH [OF rest fr] t2 show ?case by simp
qed

text \<open>
  Replay of the uncollapsed commands of a well nested session succeeds, and so does
  replay of what the collapse rule leaves of them, with the same stack.
\<close>

lemma replay_step_capture_exit:
  "replay_step CaptureLog (Open_exit data) (Pair h # st, t)
     = Inr (st, t @ [BClose (h @ (case data of None \<Rightarrow> [] | Some d \<Rightarrow> d))])"
  by (cases data) (simp_all add: CaptureLog_simps)

lemma replay_uncollapsed:
  "depth cs d = Some d1 \<Longrightarrow>
   replay_from CaptureLog (uncollapsed cs rl) (replicate d Ctx @ st, t)
     = Inr (replicate d1 Ctx @ st, t @ map event_of (uncollapsed cs rl))"
proof (induction cs rl arbitrary: d d1 st t rule: uncollapsed.induct)
  case (1 rl)
  then show ?case by simp
next
  case (2 title cs rl)
  from "2.prems" have "depth cs (Suc d) = Some d1" by simp
  from "2.IH" [OF this, of st] show ?case
    by (simp add: context_enter_def CaptureLog_simps)
next
  case (3 cs rl)
  from "3.prems" obtain k where d: "d = Suc k" and k: "depth cs k = Some d1"
    by (cases d) auto
  from "3.IH" [OF k, of st] show ?case
    by (simp add: d context_exit_def CaptureLog_simps)
next
  case (4 msg lvl cs rl)
  from "4.prems" have "depth cs d = Some d1" by simp
  from "4.IH"(1) [OF this, of st] show ?case
    by (simp add: CaptureLog_simps)
next
  case (5 filename md lvl i chunks body raises cs rl)
  from "5.prems" have b: "depth body 0 = Some 0" and c: "depth cs d = Some d1"
    by (auto split: if_splits)
  note ih1 = "5.IH"(1) [OF b, simplified]
  note ih2 = "5.IH"(2) [OF c]
  show ?case
    by (simp add: ih1 ih2 replay_from_append replay_step_capture_exit CaptureLog_simps
        del: drive.simps replay_step.simps(4) split del: if_split)
qed

lemma replay_step_stack:
  "replay_step CaptureLog c (st, t) = Inr (st1, t1) \<Longrightarrow>
   \<exists>u1. replay_step CaptureLog c (st, u) = Inr (st1, u1)"
  by (cases c; cases st; cases "hd st")
    (auto simp: CaptureLog_simps split: option.splits)

lemma replay_collapsed:
  "replay_from CaptureLog (m @ cs) x0 = Inr (st, t) \<Longrightarrow>
   \<exists>u. replay_from CaptureLog (foldl collapse_step m cs) x0 = Inr (st, u)"
proof (induction cs arbitrary: st t rule: rev_induct)
  case Nil
  then show ?case by simp
next
  case (snoc c cs)
  from snoc.prems obtain st1 t1 where
    pre: "replay_from CaptureLog (m @ cs) x0 = Inr (st1, t1)" and
    step: "replay_step CaptureLog c (st1, t1) = Inr (st, t)"
    by (auto simp: replay_from_append simp flip: append_assoc split: sum.splits)
  from snoc.IH [OF pre] obtain u1 where
    ih: "replay_from CaptureLog (foldl collapse_step m cs) x0 = Inr (st1, u1)" by blast
  let ?m1 = "foldl collapse_step m cs"
  show ?case
  proof (cases "c = Context_exit \<and> ?m1 \<noteq> [] \<and> is_context_enter (last ?m1)")
    case False
    then have eq: "collapse_step ?m1 c = ?m1 @ [c]"
      by (auto simp: collapse_step_def)
    from replay_step_stack [OF step, of u1] obtain u where
      "replay_step CaptureLog c (st1, u1) = Inr (st, u)" by blast
    with ih show ?thesis
      by (simp add: eq replay_from_append)
  next
    case True
    then obtain m2 title where m1: "?m1 = m2 @ [Context_enter title]"
      by (cases ?m1 rule: rev_cases; cases "last ?m1") auto
    from True have eq: "collapse_step ?m1 c = m2"
      by (simp add: collapse_step_def m1)
    from ih obtain st2 u2 where
      two: "replay_from CaptureLog m2 x0 = Inr (st2, u2)" and
      st1: "st1 = Ctx # st2"
      by (auto simp: m1 replay_from_append split: sum.splits)
    from step True have "st = st2"
      by (simp add: st1)
    with two show ?thesis
      by (simp add: eq)
  qed
qed

text \<open>The collapse rule on commands is the dropping of empty contexts on events.\<close>

lemma is_BEnter_event_of: "is_BEnter (event_of c) = is_context_enter c"
  by (cases c) auto

lemma event_of_exit: "(event_of c = BExit) = (c = Context_exit)"
  by (cases c) auto

lemma map_collapse:
  "map event_of (foldl collapse_step m cs)
     = foldl drop_step (map event_of m) (map event_of cs)"
proof (induction cs arbitrary: m)
  case Nil
  show ?case by simp
next
  case (Cons c cs)
  have "map event_of (collapse_step m c) = drop_step (map event_of m) (event_of c)"
    by (auto simp: collapse_step_def drop_step_def event_of_exit is_BEnter_event_of last_map map_butlast)
  with Cons.IH [of "collapse_step m c"] show ?case by simp
qed

lemma falsy_ids_view:
  "falsy_ids cs \<Longrightarrow> seen rl = Map.empty \<Longrightarrow>
   cached_view cs rl = cs \<and> seen (drive RecordLog cs rl) = Map.empty"
proof (induction cs rl rule: uncollapsed.induct)
  case (1 rl)
  then show ?case by simp
next
  case (2 title cs rl)
  then show ?case by (simp add: RecordLog_simps rec_pushcontext_def)
next
  case (3 cs rl)
  then show ?case by (simp add: RecordLog_simps rec_popcontext_def)
next
  case (4 msg lvl cs rl)
  then show ?case by (simp add: RecordLog_simps rec_write_def)
next
  case (5 filename md lvl i chunks body raises cs rl)
  let ?rl1 = "snd (open_enter RecordLog filename md lvl i rl)"
  let ?rl3 = "drive RecordLog [Open filename md lvl i chunks body raises] rl"
  from "5.prems" have f: "\<not> truthy i" "falsy_ids body" "falsy_ids cs" by simp_all
  from "5.prems"(2) have "seen ?rl1 = Map.empty"
    by (simp add: RecordLog_simps rec_open_enter_seen)
  from "5.IH"(1) [OF f(2) this]
  have b: "cached_view body ?rl1 = body" "seen (drive RecordLog body ?rl1) = Map.empty"
    by simp_all
  have s3: "seen ?rl3 = Map.empty"
    using b(2) f(1) "5.prems"(2)
    by (simp add: RecordLog_simps rec_open_exit_def rec_open_enter_frame foldl_rec_file_write
        Let_def split: option.split)
  from "5.IH"(2) [OF f(3) s3]
  have c: "cached_view cs ?rl3 = cs" "seen (drive RecordLog cs ?rl3) = Map.empty"
    by simp_all
  have "drive RecordLog (Open filename md lvl i chunks body raises # cs) rl
      = drive RecordLog cs ?rl3" by simp
  with b c "5.prems"(2) show ?case
    by (simp del: drive.simps)
qed

text \<open>
  C1, as the code has it. For a well nested session in which no block raises, recording
  it and replaying the recording onto the fresh capturing backend succeeds, and the
  backend receives the sequence of operations that driving it directly produces, with
  two differences: every context that is entered and left with nothing in between is
  dropped, and an \<open>Open\<close> call whose id was in the seen-cache delivers the cached bytes in
  place of what the caller wrote. When no call carries a truthy id, the second difference
  never arises.
\<close>

theorem replay_roundtrip:
  assumes "well_nested cs" and "no_raise cs"
  shows "replay (drive RecordLog cs RecordLog_init) CaptureLog []
           = Inr (drop_empty (drive CaptureLog (cached_view cs RecordLog_init) [])) \<and>
         (falsy_ids cs \<longrightarrow> cached_view cs RecordLog_init = cs)"
proof -
  have view: "falsy_ids cs \<longrightarrow> cached_view cs RecordLog_init = cs"
    using falsy_ids_view [of cs RecordLog_init] by (simp add: RecordLog_init_def)
  let ?u = "uncollapsed cs RecordLog_init"
  let ?m = "messages (drive RecordLog cs RecordLog_init)"
  have m: "?m = foldl collapse_step [] ?u"
    by (simp add: messages_drive RecordLog_init_def)
  from assms(1) have "depth cs 0 = Some 0"
    by (simp add: well_nested_def)
  from replay_uncollapsed [OF this, of RecordLog_init "[]" "[]"]
  have "replay_from CaptureLog ([] @ ?u) ([], []) = Inr ([], map event_of ?u)"
    by simp
  from replay_collapsed [OF this] obtain u where
    u: "replay_from CaptureLog ?m ([], []) = Inr ([], u)"
    by (auto simp: m)
  from replay_from_capture [OF u] have "u = map event_of ?m"
    by simp
  also have "\<dots> = drop_empty (map event_of ?u)"
    by (simp add: m map_collapse drop_empty_def)
  also have "map event_of ?u = drive CaptureLog (cached_view cs RecordLog_init) []"
    using drive_capture_view [OF assms(2), of RecordLog_init "[]"] by simp
  finally have "replay (drive RecordLog cs RecordLog_init) CaptureLog []
      = Inr (drop_empty (drive CaptureLog (cached_view cs RecordLog_init) []))"
    using u by (simp add: replay_def)
  with view show ?thesis by blast
qed

theorem replay_roundtrip_witness:
  "well_nested [Pushcontext ''build'', Write ''start'' 1,
      Open ''out.txt'' ''w'' 1 (Some ''k'') [''da'', ''ta''] [] False,
      Pushcontext ''empty'', Popcontext,
      Open ''again.txt'' ''w'' 1 (Some ''k'') [''other''] [] False, Popcontext] \<and>
   no_raise [Pushcontext ''build'', Write ''start'' 1,
      Open ''out.txt'' ''w'' 1 (Some ''k'') [''da'', ''ta''] [] False,
      Pushcontext ''empty'', Popcontext,
      Open ''again.txt'' ''w'' 1 (Some ''k'') [''other''] [] False, Popcontext] \<and>
   replay (drive RecordLog [Pushcontext ''build'', Write ''start'' 1,
      Open ''out.txt'' ''w'' 1 (Some ''k'') [''da'', ''ta''] [] False,
      Pushcontext ''empty'', Popcontext,
      Open ''again.txt'' ''w'' 1 (Some ''k'') [''other''] [] False, Popcontext] RecordLog_init)
      CaptureLog []
     = Inr [BEnter ''build'', BWrite ''start'' 1,
            BOpen ''out.txt'' ''w'' 1 (Some ''k''), BClose ''data'',
            BOpen ''again.txt'' ''w'' 1 (Some ''k''), BClose ''data'', BExit]"
proof -
  let ?cs = "[Pushcontext ''build'', Write ''start'' 1,
      Open ''out.txt'' ''w'' 1 (Some ''k'') [''da'', ''ta''] [] False,
      Pushcontext ''empty'', Popcontext,
      Open ''again.txt'' ''w'' 1 (Some ''k'') [''other''] [] False, Popcontext]"
  have h1: "well_nested ?cs"
    by (simp add: well_nested_def)
  have h2: "no_raise ?cs"
    by simp
  have rhs: "drop_empty (drive CaptureLog (cached_view ?cs RecordLog_init) [])
      = [BEnter ''build'', BWrite ''start'' 1,
         BOpen ''out.txt'' ''w'' 1 (Some ''k''), BClose ''data'',
         BOpen ''again.txt'' ''w'' 1 (Some ''k''), BClose ''data'', BExit]"
    by code_simp
  from replay_roundtrip [OF h1 h2] h1 h2 show ?thesis
    unfolding rhs by blast
qed

text \<open>
  C1 as stated fails: the claim has the replayed sequence equal to the directly driven
  one up to cached file contents only. A context pushed and popped at once is driven
  onto the backend directly but is not recorded, so replay produces nothing for it; a
  pop without a push is recorded but makes replay raise; and the bytes written in a block
  that raises reach the backend directly but are not recorded.
\<close>

theorem replay_roundtrip_counterexample:
  "replay (drive RecordLog [Pushcontext ''A'', Popcontext] RecordLog_init) CaptureLog [] = Inr [] \<and>
   drive CaptureLog [Pushcontext ''A'', Popcontext] [] = [BEnter ''A'', BExit] \<and>
   replay (drive RecordLog [Popcontext] RecordLog_init) CaptureLog [] = Inl IndexError \<and>
   drive CaptureLog [Popcontext] [] = [BExit] \<and>
   replay (drive RecordLog [Open ''f'' ''w'' 1 None [''data''] [] True] RecordLog_init) CaptureLog []
     = Inr [BOpen ''f'' ''w'' 1 None, BClose []] \<and>
   drive CaptureLog [Open ''f'' ''w'' 1 None [''data''] [] True] []
     = [BOpen ''f'' ''w'' 1 None, BClose ''data'']"
  by code_simp

section \<open>Recorder: the seen-cache\<close>

lemma seen_preserved:
  "seen rl i = Some d \<Longrightarrow> seen (drive RecordLog cs rl) i = Some d"
proof (induction cs rl rule: uncollapsed.induct)
  case (1 rl)
  then show ?case by simp
next
  case (2 title cs rl)
  then show ?case by (simp add: RecordLog_simps rec_pushcontext_def)
next
  case (3 cs rl)
  then show ?case by (simp add: RecordLog_simps rec_popcontext_def)
next
  case (4 msg lvl cs rl)
  then show ?case by (simp add: RecordLog_simps rec_write_def)
next
  case (5 filename md lvl j chunks body raises cs rl)
  let ?rl1 = "snd (open_enter RecordLog filename md lvl j rl)"
  let ?fr = "foldl (file_write RecordLog) (fst (open_enter RecordLog filename md lvl j rl)) chunks"
  let ?e = "if raises then Some (Raised ''block'') else None"
  from "5.prems" have "seen ?rl1 i = Some d"
    by (simp add: RecordLog_simps rec_open_enter_seen)
  then have body: "seen (drive RecordLog body ?rl1) i = Some d"
    by (rule "5.IH"(1))
  have "seen (open_exit RecordLog ?fr ?e (drive RecordLog body ?rl1)) i = Some d"
    using body "5.prems"
    by (auto simp: RecordLog_simps rec_open_exit_def rec_open_enter_frame foldl_rec_file_write
        Let_def split: option.split)
  then have "seen (drive RecordLog [Open filename md lvl j chunks body raises] rl) i = Some d"
    by simp
  then have "seen (drive RecordLog cs (drive RecordLog [Open filename md lvl j chunks body raises] rl)) i
      = Some d"
    by (rule "5.IH"(2))
  then show ?case by simp
qed

lemma collapse_keeps_prefix:
  "\<not> is_context_enter c \<Longrightarrow> \<exists>q. foldl collapse_step (p @ c # q0) xs = p @ c # q"
proof (induction xs arbitrary: q0)
  case Nil
  show ?case by simp
next
  case (Cons x xs)
  have "\<exists>q1. collapse_step (p @ c # q0) x = p @ c # q1"
  proof (cases q0 rule: rev_cases)
    case Nil
    with Cons.prems show ?thesis by (simp add: collapse_step_def)
  next
    case (snoc q2 y)
    then show ?thesis by (simp add: collapse_step_def butlast_append)
  qed
  then obtain q1 where "collapse_step (p @ c # q0) x = p @ c # q1" by blast
  with Cons.IH [OF Cons.prems, of q1] show ?case by simp
qed

lemma messages_keep_prefix:
  assumes "messages rl = p @ c # q0" and "\<not> is_context_enter c"
  shows "\<exists>q. messages (drive RecordLog cs rl) = p @ c # q"
  using collapse_keeps_prefix [OF assms(2), of p q0 "uncollapsed cs rl"]
  by (simp add: messages_drive assms(1))

lemma write_devnull:
  "f_file fr = Devnull \<Longrightarrow> foldl rec_file_write fr chunks = fr"
proof (induction chunks)
  case Nil
  show ?case by simp
next
  case (Cons c chunks)
  from Cons.prems have "rec_file_write fr c = fr"
    by (cases fr) (simp add: rec_file_write_def)
  with Cons show ?case by simp
qed

lemma open_seen_messages:
  "seen (drive RecordLog [Open filename md lvl i chunks body raises] rl) i
     = (case seen rl i of
          Some d \<Rightarrow> seen (drive RecordLog body (snd (open_enter RecordLog filename md lvl i rl))) i
        | None \<Rightarrow> if raises \<or> \<not> truthy i
                  then seen (drive RecordLog body (snd (open_enter RecordLog filename md lvl i rl))) i
                  else Some (concat chunks))"
  by (simp add: RecordLog_simps rec_open_exit_def rec_open_enter_frame foldl_rec_file_write
      foldl_fwrite Let_def split: option.split)

lemma open_last_message:
  "messages (drive RecordLog [Open filename md lvl i chunks body raises] rl)
     = messages (drive RecordLog body (snd (open_enter RecordLog filename md lvl i rl)))
       @ [Open_exit (case seen rl i of
                       Some d \<Rightarrow> Some d
                     | None \<Rightarrow> if raises then None else Some (concat chunks))]"
  by (simp add: RecordLog_simps rec_open_enter_messages rec_open_exit_messages rec_open_enter_frame
      foldl_rec_file_write foldl_fwrite split: option.split)

lemma seen_advance:
  "seen rl i = Some d \<Longrightarrow> list_all (keeps i) steps \<Longrightarrow> seen (advance steps rl) i = Some d"
proof (induction steps rl rule: advance.induct)
  case (1 rl)
  then show ?case by simp
next
  case (2 cs steps rl)
  then show ?case by (simp add: seen_preserved)
next
  case (3 filename md lvl j steps rl)
  then show ?case by (simp add: RecordLog_simps rec_open_enter_seen)
next
  case (4 fr e steps rl)
  from "4.prems" have "seen (open_exit RecordLog fr e rl) i = Some d"
    by (auto simp: RecordLog_simps rec_open_exit_def Let_def split: option.split)
  with "4.prems" "4.IH" show ?case by simp
qed

lemma messages_advance:
  "messages rl = p @ c # q0 \<Longrightarrow> \<not> is_context_enter c \<Longrightarrow>
   \<exists>q. messages (advance steps rl) = p @ c # q"
proof (induction steps rl arbitrary: q0 rule: advance.induct)
  case (1 rl)
  then show ?case by simp
next
  case (2 cs steps rl)
  from messages_keep_prefix [OF "2.prems", of cs] obtain q where
    "messages (drive RecordLog cs rl) = p @ c # q" by blast
  from "2.IH" [OF this "2.prems"(2)] show ?case by simp
next
  case (3 filename md lvl j steps rl)
  have "messages (snd (open_enter RecordLog filename md lvl j rl))
      = p @ c # (q0 @ [Open_enter filename md lvl j])"
    by (simp add: RecordLog_simps rec_open_enter_messages "3.prems"(1))
  from "3.IH" [OF this "3.prems"(2)] show ?case by simp
next
  case (4 fr e steps rl)
  have "\<exists>x. messages (open_exit RecordLog fr e rl) = p @ c # (q0 @ [x])"
    by (simp add: RecordLog_simps rec_open_exit_messages "4.prems"(1))
  then obtain x where "messages (open_exit RecordLog fr e rl) = p @ c # (q0 @ [x])" by blast
  from "4.IH" [OF this "4.prems"(2)] show ?case by simp
qed

text \<open>
  C3, as the code has it. Take two open calls with the same truthy id, the first made
  when the id is not in the seen-cache and left without raising before the second is
  made. In between the recorder may go through any complete calls, entries into blocks
  and exits from blocks, as long as no exit stores under this id (no call with this id
  that started before the first one is left normally in between). The cache holds the
  bytes written in the first call from its exit on, and neither what happens in between
  nor the second call changes that entry. The file of the second call is the sink:
  writing to it changes nothing. Both calls record open_exit with the bytes of the first
  call, the records stay in the recording whatever is recorded later, and a replay that
  succeeds closes the target's file with exactly these bytes at both positions.
\<close>

theorem cache_first_writer:
  assumes "truthy i" and "seen rl i = None"
    and "rla = drive RecordLog [Open fa ma la i cha ba False] rl"
    and "list_all (keeps i) between" and "rlb = advance between rla"
    and "rlc = drive RecordLog [Open fb mb lb i chb bb rb] rlb"
  shows "seen rla i = Some (concat cha) \<and> seen rlb i = Some (concat cha) \<and>
         seen rlc i = Some (concat cha) \<and>
         f_file (fst (open_enter RecordLog fb mb lb i rlb)) = Devnull \<and>
         foldl (file_write RecordLog) (fst (open_enter RecordLog fb mb lb i rlb)) chb
           = fst (open_enter RecordLog fb mb lb i rlb) \<and>
         (\<exists>p q. messages rla = p @ [Open_exit (Some (concat cha))] \<and>
            messages rlc = p @ Open_exit (Some (concat cha)) # q @ [Open_exit (Some (concat cha))] \<and>
            (\<forall>later t. replay (rlc\<lparr>messages := messages rlc @ later\<rparr>) CaptureLog [] = Inr t \<longrightarrow>
               t ! length p = BClose (concat cha) \<and>
               t ! Suc (length p + length q) = BClose (concat cha)))"
proof -
  let ?d = "concat cha"
  let ?x = "Open_exit (Some ?d)"
  have sa: "seen rla i = Some ?d"
    using assms(1,2) by (simp add: assms(3) open_seen_messages del: drive.simps)
  then have sb: "seen rlb i = Some ?d"
    unfolding assms(5) using assms(4) by (rule seen_advance)
  then have sc: "seen rlc i = Some ?d"
    unfolding assms(6) by (rule seen_preserved)
  have dn: "f_file (fst (open_enter RecordLog fb mb lb i rlb)) = Devnull"
    by (simp add: RecordLog_simps rec_open_enter_frame sb)
  have wr: "foldl (file_write RecordLog) (fst (open_enter RecordLog fb mb lb i rlb)) chb
      = fst (open_enter RecordLog fb mb lb i rlb)"
    using dn by (simp add: RecordLog_simps write_devnull)
  obtain p where mm: "messages rla = p @ [?x]"
    using assms(2) by (simp add: assms(3) open_last_message del: drive.simps)
  from messages_advance [of rla p ?x "[]" between] mm obtain qa where
    mq: "messages rlb = p @ ?x # qa"
    by (auto simp: assms(5))
  let ?rl2a = "snd (open_enter RecordLog fb mb lb i rlb)"
  have "messages ?rl2a = (p @ ?x # qa) @ Open_enter fb mb lb i # []"
    by (simp add: RecordLog_simps rec_open_enter_messages mq)
  from messages_keep_prefix [OF this, of bb] obtain qb where
    "messages (drive RecordLog bb ?rl2a) = (p @ ?x # qa) @ Open_enter fb mb lb i # qb"
    by auto
  then have mc: "messages rlc = p @ ?x # (qa @ Open_enter fb mb lb i # qb) @ [?x]"
    by (simp add: assms(6) open_last_message sb del: drive.simps)
  let ?q = "qa @ Open_enter fb mb lb i # qb"
  have rp: "\<forall>later t. replay (rlc\<lparr>messages := messages rlc @ later\<rparr>) CaptureLog [] = Inr t \<longrightarrow>
      t ! length p = BClose ?d \<and> t ! Suc (length p + length ?q) = BClose ?d"
  proof (intro allI impI)
    fix later t
    assume "replay (rlc\<lparr>messages := messages rlc @ later\<rparr>) CaptureLog [] = Inr t"
    then obtain st where
      "replay_from CaptureLog (messages rlc @ later) ([], []) = Inr (st, t)"
      by (auto simp: replay_def split: sum.splits)
    from replay_from_capture [OF this] have t: "t = map event_of (messages rlc @ later)"
      by simp
    show "t ! length p = BClose ?d \<and> t ! Suc (length p + length ?q) = BClose ?d"
      unfolding t mc by (simp add: nth_append)
  qed
  from mm mc rp have "\<exists>p q. messages rla = p @ [?x] \<and> messages rlc = p @ ?x # q @ [?x] \<and>
      (\<forall>later t. replay (rlc\<lparr>messages := messages rlc @ later\<rparr>) CaptureLog [] = Inr t \<longrightarrow>
         t ! length p = BClose ?d \<and> t ! Suc (length p + length q) = BClose ?d)"
    by blast
  with sa sb sc dn wr show ?thesis by blast
qed

theorem cache_first_writer_witness:
  "truthy (Some ''k'') \<and> seen RecordLog_init (Some ''k'') = None \<and>
   seen (drive RecordLog [Open ''a'' ''w'' 1 (Some ''k'') [''one''] [] False, Write ''m'' 1,
           Open ''b'' ''w'' 1 (Some ''k'') [''two''] [] False] RecordLog_init) (Some ''k'')
     = Some ''one'' \<and>
   replay (drive RecordLog [Open ''a'' ''w'' 1 (Some ''k'') [''one''] [] False, Write ''m'' 1,
           Open ''b'' ''w'' 1 (Some ''k'') [''two''] [] False] RecordLog_init) CaptureLog []
     = Inr [BOpen ''a'' ''w'' 1 (Some ''k''), BClose ''one'', BWrite ''m'' 1,
            BOpen ''b'' ''w'' 1 (Some ''k''), BClose ''one'']"
proof -
  have h1: "truthy (Some ''k'')"
    by simp
  have h2: "seen RecordLog_init (Some ''k'') = None"
    by (simp add: RecordLog_init_def)
  let ?rla = "drive RecordLog [Open ''a'' ''w'' 1 (Some ''k'') [''one''] [] False] RecordLog_init"
  let ?rlb = "drive RecordLog [Write ''m'' 1] ?rla"
  let ?rlc = "drive RecordLog [Open ''b'' ''w'' 1 (Some ''k'') [''two''] [] False] ?rlb"
  have rlc: "?rlc = drive RecordLog [Open ''a'' ''w'' 1 (Some ''k'') [''one''] [] False, Write ''m'' 1,
           Open ''b'' ''w'' 1 (Some ''k'') [''two''] [] False] RecordLog_init"
    by simp
  have h3: "list_all (keeps (Some ''k'')) [Calls [Write ''m'' 1]]"
    by simp
  have adv: "advance [Calls [Write ''m'' 1]] ?rla = ?rlb"
    by (simp del: drive.simps)
  note th = cache_first_writer [where i = "Some ''k''" and rl = RecordLog_init
      and fa = "''a''" and ma = "''w''" and la = 1 and cha = "[''one'']" and ba = "[]"
      and between = "[Calls [Write ''m'' 1]]"
      and fb = "''b''" and mb = "''w''" and lb = 1 and chb = "[''two'']" and bb = "[]"
      and rb = False, OF h1 h2 refl h3 refl refl]
  have "seen ?rlc (Some ''k'') = Some (concat [''one''])"
    using th [unfolded adv] by blast
  then have s: "seen (drive RecordLog [Open ''a'' ''w'' 1 (Some ''k'') [''one''] [] False, Write ''m'' 1,
           Open ''b'' ''w'' 1 (Some ''k'') [''two''] [] False] RecordLog_init) (Some ''k'')
     = Some ''one''"
    unfolding rlc by simp
  have r: "replay (drive RecordLog [Open ''a'' ''w'' 1 (Some ''k'') [''one''] [] False, Write ''m'' 1,
           Open ''b'' ''w'' 1 (Some ''k'') [''two''] [] False] RecordLog_init) CaptureLog []
     = Inr [BOpen ''a'' ''w'' 1 (Some ''k''), BClose ''one'', BWrite ''m'' 1,
            BOpen ''b'' ''w'' 1 (Some ''k''), BClose ''one'']"
    by code_simp
  from h1 h2 s r show ?thesis by blast
qed

text \<open>
  C3 as stated fails for two calls of which the first has not been left, or was left by
  an exception, when the second is made. Nested, the inner call gets a real buffer, its
  bytes are recorded and replayed for it, and the outer call's bytes for the outer one;
  after a first call whose block raised, the cache holds the bytes of the second call.
\<close>

theorem cache_first_writer_counterexample:
  "messages (drive RecordLog
      [Open ''a'' ''w'' 1 (Some ''x'') [''outer'']
         [Open ''b'' ''w'' 1 (Some ''x'') [''inner''] [] False] False] RecordLog_init)
     = [Open_enter ''a'' ''w'' 1 (Some ''x''), Open_enter ''b'' ''w'' 1 (Some ''x''),
        Open_exit (Some ''inner''), Open_exit (Some ''outer'')] \<and>
   replay (drive RecordLog
      [Open ''a'' ''w'' 1 (Some ''x'') [''outer'']
         [Open ''b'' ''w'' 1 (Some ''x'') [''inner''] [] False] False] RecordLog_init) CaptureLog []
     = Inr [BOpen ''a'' ''w'' 1 (Some ''x''), BOpen ''b'' ''w'' 1 (Some ''x''),
            BClose ''inner'', BClose ''outer''] \<and>
   seen (drive RecordLog
      [Open ''a'' ''w'' 1 (Some ''x'') [''one''] [] True,
       Open ''b'' ''w'' 1 (Some ''x'') [''two''] [] False] RecordLog_init) (Some ''x'')
     = Some ''two''"
  by code_simp

end
